theory Spec2Isabelle
  imports Main
begin

section \<open>The buffer manager of BadgerDB (buffer.cpp)\<close>

text \<open>
  A shallow embedding of \<^verbatim>\<open>BufMgr\<close>: the descriptor table and the frame pool are lists
  indexed by frame id, the buffer hash table is a partial map from (file, page number) to
  frame id, and the files the manager talks to are part of the state, together with a log
  of the calls issued to them. Every operation takes the state and returns its outcome
  (an error or a value) with the state it leaves behind; a C++ exception is an error
  outcome, paired with the state at the moment of the throw.

  Frame ids, page numbers and the pool size are 32-bit unsigned in the source. They are
  natural numbers here: a pool holds far fewer than \<open>2 ^ 31\<close> frames and the clock hand
  stays below the pool size once it has advanced, so the only wrap-around of the source
  is \<open>bufs - 1\<close> in the constructor for an empty pool, which is written out there.
\<close>

subsection \<open>Data\<close>

type_synonym fileid = nat
  \<comment> \<open>the identity of a \<^verbatim>\<open>File\<close> object (the source compares \<^verbatim>\<open>File*\<close> pointers)\<close>

type_synonym PageId = nat
type_synonym FrameId = nat

text \<open>
  Modelled from the spec: a \<^verbatim>\<open>Page\<close> is an opaque unit of content that carries its own
  page id (\<^verbatim>\<open>writePage\<close> persists a page at the content's page id); the class is not
  part of the sources at hand.
\<close>

record Page =
  page_number :: PageId
  pdata :: string

text \<open>
  Modelled from the spec: the class \<^verbatim>\<open>BufDesc\<close> of buffer.h, which is not part of the
  sources at hand. Its fields are those of the spec's FrameDescriptor (owning file, if
  any, page id, frame id, pin count which is never negative, dirty, valid, refBit).
\<close>

record BufDesc =
  owningFile :: "fileid option"
    \<comment> \<open>the field \<^verbatim>\<open>file\<close>; \<open>None\<close> is the null pointer\<close>
  pageNo :: PageId
  frameNo :: FrameId
  pinCnt :: nat
  dirty :: bool
  valid :: bool
  refbit :: bool

text \<open>
  Modelled from the spec: \<^verbatim>\<open>BufDesc::Clear\<close> resets a descriptor to the invalid state
  (no owner, pin count 0, not dirty, not valid, reference bit off; the frame id stays).
\<close>

definition BufDesc_Clear :: "BufDesc \<Rightarrow> BufDesc" where
  "BufDesc_Clear d =
     d\<lparr>pinCnt := 0, owningFile := None, pageNo := 0, dirty := False, refbit := False, valid := False\<rparr>"

text \<open>
  Modelled from the spec: \<^verbatim>\<open>BufDesc::Set(file, pageNo)\<close> marks the descriptor valid
  with pin count 1, reference bit on, not dirty, and records the owner.
\<close>

definition BufDesc_Set :: "fileid \<Rightarrow> PageId \<Rightarrow> BufDesc \<Rightarrow> BufDesc" where
  "BufDesc_Set f p d =
     d\<lparr>owningFile := Some f, pageNo := p, pinCnt := 1, dirty := False, valid := True, refbit := True\<rparr>"

text \<open>Modelled from the spec: a freshly constructed descriptor is in the cleared state.\<close>

definition BufDesc_new :: BufDesc where
  "BufDesc_new =
     \<lparr>owningFile = None, pageNo = 0, frameNo = 0, pinCnt = 0, dirty = False, valid = False,
      refbit = False\<rparr>"

definition Page_new :: Page where
  "Page_new = \<lparr>page_number = 0, pdata = []\<rparr>"

datatype io_event =
    IORead fileid PageId
  | IOWrite fileid Page
  | IOAllocate fileid PageId
  | IODelete fileid PageId

datatype error =
    BufferExceeded
  | PageNotPinned fileid PageId FrameId
  | PagePinned fileid PageId FrameId
  | BadBuffer FrameId bool bool bool
  | HashNotFound "fileid option" PageId
  | HashAlreadyPresent fileid PageId FrameId
  | InvalidPage fileid PageId
  | NullFile
  | OutOfRange FrameId

text \<open>
  \<open>NullFile\<close> and \<open>OutOfRange\<close> are not exceptions of the source: they stand for the
  undefined behaviour of calling through a null \<^verbatim>\<open>File*\<close> and of indexing the descriptor
  table past its end.
\<close>

record BufMgr =
  bufDescTable :: "BufDesc list"
  bufPool :: "Page list"
  hashTable :: "fileid \<times> PageId \<rightharpoonup> FrameId"
  clockHand :: FrameId
  files :: "fileid \<Rightarrow> (PageId \<rightharpoonup> Page)"
  io :: "io_event list"

text \<open>The field \<^verbatim>\<open>numBufs\<close> is the length of both arrays; it is set once, in the constructor.\<close>

abbreviation numBufs :: "BufMgr \<Rightarrow> nat" where
  "numBufs s \<equiv> length (bufDescTable s)"

type_synonym 'a outcome = "(error + 'a) \<times> BufMgr"

subsection \<open>The collaborators: files and the buffer hash table\<close>

text \<open>
  Modelled from the spec: the File collaborator. \<^verbatim>\<open>readPage\<close> fails when the page does
  not exist; \<^verbatim>\<open>writePage\<close> persists a page at the page's own number; \<^verbatim>\<open>allocatePage\<close>
  returns a new page, which is chosen by the collaborator and therefore an argument here;
  \<^verbatim>\<open>deletePage\<close> frees the slot. Each call is appended to the log.
\<close>

definition file_readPage :: "fileid \<Rightarrow> PageId \<Rightarrow> BufMgr \<Rightarrow> Page outcome" where
  "file_readPage f p s =
     (let s' = s\<lparr>io := io s @ [IORead f p]\<rparr>
      in case files s f p of
           None \<Rightarrow> (Inl (InvalidPage f p), s')
         | Some pg \<Rightarrow> (Inr pg, s'))"

definition file_writePage :: "fileid \<Rightarrow> Page \<Rightarrow> BufMgr \<Rightarrow> BufMgr" where
  "file_writePage f pg s =
     s\<lparr>files := (files s)(f := (files s f)(page_number pg \<mapsto> pg)),
       io := io s @ [IOWrite f pg]\<rparr>"

definition file_allocatePage :: "fileid \<Rightarrow> Page \<Rightarrow> BufMgr \<Rightarrow> Page \<times> BufMgr" where
  "file_allocatePage f fresh s =
     (fresh,
      s\<lparr>files := (files s)(f := (files s f)(page_number fresh \<mapsto> fresh)),
        io := io s @ [IOAllocate f (page_number fresh)]\<rparr>)"

definition file_deletePage :: "fileid \<Rightarrow> PageId \<Rightarrow> BufMgr \<Rightarrow> BufMgr" where
  "file_deletePage f p s =
     s\<lparr>files := (files s)(f := (files s f)(p := None)), io := io s @ [IODelete f p]\<rparr>"

text \<open>
  Modelled from the spec: the Frame Index \<^verbatim>\<open>BufHashTbl\<close>. \<^verbatim>\<open>lookup\<close> tells found from
  not found, \<^verbatim>\<open>insert\<close> fails if the key is already there, and \<^verbatim>\<open>remove\<close> signals a
  missing key with the \<^verbatim>\<open>HashNotFoundException\<close> that \<^verbatim>\<open>allocBuf\<close> catches around it
  (\<open>None\<close> here).
\<close>

definition ht_lookup :: "(fileid \<times> PageId \<rightharpoonup> FrameId) \<Rightarrow> fileid \<Rightarrow> PageId \<Rightarrow> FrameId option" where
  "ht_lookup ht f p = ht (f, p)"

definition ht_insert ::
  "(fileid \<times> PageId \<rightharpoonup> FrameId) \<Rightarrow> fileid \<Rightarrow> PageId \<Rightarrow> FrameId
     \<Rightarrow> error + (fileid \<times> PageId \<rightharpoonup> FrameId)" where
  "ht_insert ht f p fr =
     (case ht (f, p) of
        Some fr' \<Rightarrow> Inl (HashAlreadyPresent f p fr')
      | None \<Rightarrow> Inr (ht((f, p) \<mapsto> fr)))"

definition ht_remove ::
  "(fileid \<times> PageId \<rightharpoonup> FrameId) \<Rightarrow> fileid \<Rightarrow> PageId \<Rightarrow> (fileid \<times> PageId \<rightharpoonup> FrameId) option" where
  "ht_remove ht f p =
     (case ht (f, p) of
        None \<Rightarrow> None
      | Some fr \<Rightarrow> Some (ht((f, p) := None)))"

subsection \<open>Constructor and clock\<close>

definition BufMgr_new :: "nat \<Rightarrow> (fileid \<Rightarrow> (PageId \<rightharpoonup> Page)) \<Rightarrow> BufMgr" where
  "BufMgr_new bufs fs =
     \<lparr>bufDescTable = map (\<lambda>i. BufDesc_new\<lparr>frameNo := i, valid := False\<rparr>) [0..<bufs],
      bufPool = replicate bufs Page_new,
      hashTable = Map.empty,
      clockHand = (if bufs = 0 then 2 ^ 32 - 1 else bufs - 1),
      files = fs,
      io = []\<rparr>"

definition advanceClock :: "BufMgr \<Rightarrow> BufMgr" where
  "advanceClock s = s\<lparr>clockHand := (clockHand s + 1) mod numBufs s\<rparr>"

subsection \<open>Victim selection\<close>

text \<open>
  The tail of one step of the sweep (lines 96 to 109), for a valid frame \<open>h\<close> whose
  reference bit is off and which is not pinned. First a dirty page is written back
  through the owning file (lines 96 to 98).
\<close>

definition writeBack :: "FrameId \<Rightarrow> BufMgr \<Rightarrow> error + BufMgr" where
  "writeBack h s =
     (let d = bufDescTable s ! h in
      if dirty d
      then (case owningFile d of
              None \<Rightarrow> Inl NullFile
            | Some f \<Rightarrow> Inr (file_writePage f (bufPool s ! h) s))
      else Inr s)"

text \<open>
  Then, if the frame has an owner, its index entry is removed and the descriptor cleared
  (lines 100 to 107). When \<^verbatim>\<open>remove\<close> throws, \<^verbatim>\<open>Clear()\<close> is skipped and the
  exception is swallowed.
\<close>

definition removeAndClear :: "FrameId \<Rightarrow> BufMgr \<Rightarrow> BufMgr" where
  "removeAndClear h s =
     (let d = bufDescTable s ! h in
      case owningFile d of
        None \<Rightarrow> s
      | Some f \<Rightarrow>
          (case ht_remove (hashTable s) f (pageNo d) of
             None \<Rightarrow> s
           | Some ht \<Rightarrow>
               s\<lparr>hashTable := ht, bufDescTable := (bufDescTable s)[h := BufDesc_Clear d]\<rparr>))"

definition evict :: "FrameId \<Rightarrow> BufMgr \<Rightarrow> FrameId outcome" where
  "evict h s =
     (case writeBack h s of
        Inl e \<Rightarrow> (Inl e, s)
      | Inr s1 \<Rightarrow> (Inr h, removeAndClear h s1))"

text \<open>Line 88: the reference bit of frame \<open>h\<close> is switched off.\<close>

definition clearRef :: "FrameId \<Rightarrow> BufMgr \<Rightarrow> BufMgr" where
  "clearRef h s =
     s\<lparr>bufDescTable := (bufDescTable s)[h := (bufDescTable s ! h)\<lparr>refbit := False\<rparr>]\<rparr>"

text \<open>
  The \<^verbatim>\<open>for\<close> loop of \<^verbatim>\<open>allocBuf\<close> (lines 77 to 110); the first argument counts the
  iterations that are left. \<open>Inr None\<close> is the loop running to its end.
\<close>

fun sweep :: "nat \<Rightarrow> BufMgr \<Rightarrow> FrameId option outcome" where
  "sweep 0 s = (Inr None, s)"
| "sweep (Suc k) s =
     (let s1 = advanceClock s;
          h = clockHand s1;
          d = bufDescTable s1 ! h
      in if \<not> valid d then (Inr (Some h), s1)
         else if refbit d
         then sweep k (clearRef h s1)
         else if pinCnt d > 0 then sweep k s1
         else (case evict h s1 of
                 (Inl e, s2) \<Rightarrow> (Inl e, s2)
               | (Inr fr, s2) \<Rightarrow> (Inr (Some fr), s2)))"

text \<open>
  The second loop of \<^verbatim>\<open>allocBuf\<close> (lines 113 to 119): is some frame unpinned? (The
  source keeps the answer in a flag it calls \<^verbatim>\<open>allPinned\<close>.)
\<close>

definition someUnpinned :: "BufMgr \<Rightarrow> bool" where
  "someUnpinned s = list_ex (\<lambda>d. pinCnt d = 0) (bufDescTable s)"

function allocBuf :: "BufMgr \<Rightarrow> FrameId outcome" where
  "allocBuf s =
     (case sweep (numBufs s) s of
        (Inl e, s') \<Rightarrow> (Inl e, s')
      | (Inr (Some fr), s') \<Rightarrow> (Inr fr, s')
      | (Inr None, s') \<Rightarrow>
          if someUnpinned s' then allocBuf s' else (Inl BufferExceeded, s'))"
  by pat_completeness auto

text \<open>
  The \<^verbatim>\<open>while (true)\<close> loop ends: a sweep that selects nothing leaves every reference
  bit off, and when it is followed by another sweep some reference bit was on before.
\<close>

definition someRef :: "BufMgr \<Rightarrow> bool" where
  "someRef s = list_ex refbit (bufDescTable s)"

subsection \<open>Facts about one sweep\<close>

lemma map_update_absorb:
  "(\<And>x. f (g x) = f x) \<Longrightarrow> map f (xs[h := g (xs ! h)]) = map f xs"
  by (cases "h < length xs") (simp_all add: map_update list_update_same_conv list_update_beyond)

lemma advanceClock_simps [simp]:
  "bufDescTable (advanceClock s) = bufDescTable s"
  "bufPool (advanceClock s) = bufPool s"
  "hashTable (advanceClock s) = hashTable s"
  "files (advanceClock s) = files s"
  "io (advanceClock s) = io s"
  "clockHand (advanceClock s) = (clockHand s + 1) mod numBufs s"
  by (simp_all add: advanceClock_def)

lemma sweep_Suc_cases [consumes 1, case_names invalid second_chance pinned evict]:
  assumes "sweep (Suc k) s = (r, s')"
  obtains
    "\<not> valid (bufDescTable s ! clockHand (advanceClock s))"
      "r = Inr (Some (clockHand (advanceClock s)))" "s' = advanceClock s"
  | "valid (bufDescTable s ! clockHand (advanceClock s))"
      "refbit (bufDescTable s ! clockHand (advanceClock s))"
      "sweep k (clearRef (clockHand (advanceClock s)) (advanceClock s)) = (r, s')"
  | "valid (bufDescTable s ! clockHand (advanceClock s))"
      "\<not> refbit (bufDescTable s ! clockHand (advanceClock s))"
      "pinCnt (bufDescTable s ! clockHand (advanceClock s)) > 0"
      "sweep k (advanceClock s) = (r, s')"
  | r' where "valid (bufDescTable s ! clockHand (advanceClock s))"
      "\<not> refbit (bufDescTable s ! clockHand (advanceClock s))"
      "pinCnt (bufDescTable s ! clockHand (advanceClock s)) = 0"
      "evict (clockHand (advanceClock s)) (advanceClock s) = (r', s')"
      "r = map_sum id Some r'"
proof -
  let ?s1 = "advanceClock s"
  let ?h = "clockHand ?s1"
  let ?d = "bufDescTable s ! ?h"
  show thesis
  proof (cases "valid ?d")
    case False
    with assms that(1) show thesis by (simp add: Let_def)
  next
    case v: True
    show thesis
    proof (cases "refbit ?d")
      case True
      with v assms that(2) show thesis by (simp add: Let_def clearRef_def)
    next
      case nr: False
      show thesis
      proof (cases "pinCnt ?d > 0")
        case True
        with v nr assms that(3) show thesis by (simp add: Let_def)
      next
        case False
        obtain r' s2 where e: "evict ?h ?s1 = (r', s2)" by (cases "evict ?h ?s1")
        with v nr False assms have "s' = s2" "r = map_sum id Some r'"
          by (cases r'; simp add: Let_def)+
        with v nr False e that(4) show thesis by simp
      qed
    qed
  qed
qed

lemma clearRef_simps [simp]:
  "bufPool (clearRef h s) = bufPool s"
  "hashTable (clearRef h s) = hashTable s"
  "files (clearRef h s) = files s"
  "io (clearRef h s) = io s"
  "clockHand (clearRef h s) = clockHand s"
  "numBufs (clearRef h s) = numBufs s"
  by (simp_all add: clearRef_def)

lemma clearRef_nth:
  "i < numBufs s \<Longrightarrow>
     bufDescTable (clearRef h s) ! i =
       (if i = h then (bufDescTable s ! i)\<lparr>refbit := False\<rparr> else bufDescTable s ! i)"
  by (simp add: clearRef_def nth_list_update)

lemma clearRef_map:
  "map (\<lambda>d. d\<lparr>refbit := False\<rparr>) (bufDescTable (clearRef h s)) =
     map (\<lambda>d. d\<lparr>refbit := False\<rparr>) (bufDescTable s)"
  by (simp add: clearRef_def map_update_absorb)

lemma writeBack_length: "writeBack h s = Inr s' \<Longrightarrow> numBufs s' = numBufs s"
  by (auto simp: writeBack_def Let_def file_writePage_def split: if_splits option.splits)

lemma removeAndClear_length [simp]: "numBufs (removeAndClear h s) = numBufs s"
  by (simp add: removeAndClear_def Let_def split: option.splits)

lemma evict_length: "evict h s = (r, s') \<Longrightarrow> numBufs s' = numBufs s"
  by (auto simp: evict_def split: sum.splits dest: writeBack_length)

lemma evict_frame: "evict h s = (Inr fr, s') \<Longrightarrow> fr = h"
  by (auto simp: evict_def split: sum.splits)

lemma sweep_length: "sweep k s = (r, s') \<Longrightarrow> numBufs s' = numBufs s"
proof (induction k arbitrary: s)
  case 0
  then show ?case by simp
next
  case (Suc k)
  from Suc.prems show ?case
  proof (cases rule: sweep_Suc_cases)
    case invalid
    then show ?thesis by simp
  next
    case second_chance
    from Suc.IH [OF second_chance(3)] show ?thesis by simp
  next
    case pinned
    from Suc.IH [OF pinned(4)] show ?thesis by simp
  next
    case (evict r')
    from evict_length [OF evict(4)] show ?thesis by simp
  qed
qed

text \<open>A sweep that selects nothing only clears reference bits and moves the hand.\<close>

lemma sweep_None_frame:
  "sweep k s = (Inr None, s') \<Longrightarrow>
     bufPool s' = bufPool s \<and> hashTable s' = hashTable s \<and> files s' = files s \<and> io s' = io s \<and>
     map (\<lambda>d. d\<lparr>refbit := False\<rparr>) (bufDescTable s') = map (\<lambda>d. d\<lparr>refbit := False\<rparr>) (bufDescTable s)"
proof (induction k arbitrary: s)
  case 0
  then show ?case by simp
next
  case (Suc k)
  from Suc.prems show ?case
  proof (cases rule: sweep_Suc_cases)
    case invalid
    then show ?thesis by simp
  next
    case second_chance
    from Suc.IH [OF second_chance(3)] show ?thesis by (simp add: clearRef_map)
  next
    case pinned
    from Suc.IH [OF pinned(4)] show ?thesis by simp
  next
    case (evict r')
    from evict(5) have False by (cases r') (auto dest: evict_frame)
    then show ?thesis ..
  qed
qed

lemma sweep_None_hand:
  "sweep k s = (Inr None, s') \<Longrightarrow> clockHand s < numBufs s \<Longrightarrow>
     clockHand s' = (clockHand s + k) mod numBufs s"
proof (induction k arbitrary: s)
  case 0
  then show ?case by simp
next
  case (Suc k)
  have h: "(clockHand s + 1) mod numBufs s < numBufs s"
    using Suc.prems(2) by (intro mod_less_divisor) (rule le_less_trans [OF le0])
  from Suc.prems(1) show ?case
  proof (cases rule: sweep_Suc_cases)
    case invalid
    then show ?thesis by simp
  next
    case second_chance
    from h have "clockHand (clearRef (clockHand (advanceClock s)) (advanceClock s))
        < numBufs (clearRef (clockHand (advanceClock s)) (advanceClock s))" by simp
    from Suc.IH [OF second_chance(3) this] show ?thesis by (simp add: mod_simps)
  next
    case pinned
    from h have "clockHand (advanceClock s) < numBufs (advanceClock s)" by simp
    from Suc.IH [OF pinned(4) this] show ?thesis by (simp add: mod_simps)
  next
    case (evict r')
    from evict(5) have False by (cases r') (auto dest: evict_frame)
    then show ?thesis ..
  qed
qed

lemma same_upto_refbit:
  assumes "map (\<lambda>d. d\<lparr>refbit := False\<rparr>) xs = map (\<lambda>d. d\<lparr>refbit := False\<rparr>) ys" "i < length ys"
  shows "(xs ! i)\<lparr>refbit := False\<rparr> = (ys ! i)\<lparr>refbit := False\<rparr>"
proof -
  from assms(1) have "length xs = length ys" by (rule map_eq_imp_length_eq)
  with assms show ?thesis by (metis nth_map)
qed

lemma same_upto_refbit_fields:
  assumes "(d::BufDesc)\<lparr>refbit := False\<rparr> = d'\<lparr>refbit := False\<rparr>"
  shows "pinCnt d = pinCnt d'" "valid d = valid d'" "dirty d = dirty d'"
    "owningFile d = owningFile d'" "pageNo d = pageNo d'" "frameNo d = frameNo d'"
proof -
  have "pinCnt d = pinCnt (d\<lparr>refbit := False\<rparr>)" by simp
  also have "\<dots> = pinCnt d'" by (simp add: assms)
  finally show "pinCnt d = pinCnt d'" .
  have "valid d = valid (d\<lparr>refbit := False\<rparr>)" by simp
  also have "\<dots> = valid d'" by (simp add: assms)
  finally show "valid d = valid d'" .
  have "dirty d = dirty (d\<lparr>refbit := False\<rparr>)" by simp
  also have "\<dots> = dirty d'" by (simp add: assms)
  finally show "dirty d = dirty d'" .
  have "owningFile d = owningFile (d\<lparr>refbit := False\<rparr>)" by simp
  also have "\<dots> = owningFile d'" by (simp add: assms)
  finally show "owningFile d = owningFile d'" .
  have "pageNo d = pageNo (d\<lparr>refbit := False\<rparr>)" by simp
  also have "\<dots> = pageNo d'" by (simp add: assms)
  finally show "pageNo d = pageNo d'" .
  have "frameNo d = frameNo (d\<lparr>refbit := False\<rparr>)" by simp
  also have "\<dots> = frameNo d'" by (simp add: assms)
  finally show "frameNo d = frameNo d'" .
qed

lemma visit_all:
  assumes "0 < N" "i < N"
  shows "\<exists>j. 1 \<le> j \<and> j \<le> N \<and> (h + j) mod N = (i::nat)"
proof -
  define m where "m = h mod N"
  have m: "m < N" using assms(1) by (simp add: m_def)
  have hm: "(h + j) mod N = (m + j) mod N" for j by (simp add: m_def mod_simps)
  show ?thesis
  proof (cases "m < i")
    case True
    then have "m + (i - m) = i" by simp
    then have "(m + (i - m)) mod N = i" using assms(2) by simp
    then have "(h + (i - m)) mod N = i" by (simp only: hm)
    moreover from True assms(2) have "1 \<le> i - m" "i - m \<le> N" by linarith+
    ultimately show ?thesis by blast
  next
    case False
    with m have "m + (N + i - m) = N + i" by linarith
    then have "(m + (N + i - m)) mod N = i" using assms(2) by simp
    then have "(h + (N + i - m)) mod N = i" by (simp only: hm)
    moreover from False m assms(2) have "1 \<le> N + i - m" "N + i - m \<le> N" by linarith+
    ultimately show ?thesis by blast
  qed
qed

lemma sweep_None_refbit_mono:
  "sweep k s = (Inr None, s') \<Longrightarrow> i < numBufs s \<Longrightarrow> refbit (bufDescTable s' ! i) \<Longrightarrow>
     refbit (bufDescTable s ! i)"
proof (induction k arbitrary: s)
  case 0
  then show ?case by simp
next
  case (Suc k)
  from Suc.prems(1) show ?case
  proof (cases rule: sweep_Suc_cases)
    case invalid
    then show ?thesis by simp
  next
    case second_chance
    from Suc.IH [OF second_chance(3)] Suc.prems(2,3)
    have "refbit (bufDescTable (clearRef (clockHand (advanceClock s)) (advanceClock s)) ! i)"
      by simp
    with Suc.prems(2) show ?thesis by (simp add: clearRef_nth split: if_splits)
  next
    case pinned
    from Suc.IH [OF pinned(4)] Suc.prems(2,3) show ?thesis by simp
  next
    case (evict r')
    from evict(5) have False by (cases r') (auto dest: evict_frame)
    then show ?thesis ..
  qed
qed

text \<open>
  After a sweep of \<open>k\<close> steps that selects nothing, every frame the hand has passed has
  its reference bit off, and it is pinned unless its reference bit was on before.
\<close>

lemma sweep_None_visited:
  "sweep k s = (Inr None, s') \<Longrightarrow> 0 < numBufs s \<Longrightarrow> 1 \<le> j \<Longrightarrow> j \<le> k \<Longrightarrow>
     \<not> refbit (bufDescTable s' ! ((clockHand s + j) mod numBufs s)) \<and>
     valid (bufDescTable s ! ((clockHand s + j) mod numBufs s)) \<and>
     (0 < pinCnt (bufDescTable s ! ((clockHand s + j) mod numBufs s)) \<or>
      refbit (bufDescTable s ! ((clockHand s + j) mod numBufs s)))"
proof (induction k arbitrary: s j)
  case 0
  then show ?case by simp
next
  case (Suc k)
  let ?N = "numBufs s"
  let ?s1 = "advanceClock s"
  let ?h = "clockHand ?s1"
  let ?p = "(clockHand s + j) mod ?N"
  have h: "?h < ?N" and p: "?p < ?N" using Suc.prems(2) by simp_all
  have step: "(?h + (j - 1)) mod ?N = ?p"
  proof -
    from Suc.prems(3) obtain j' where "j = Suc j'" by (cases j) simp_all
    then show ?thesis by (simp add: mod_simps)
  qed
  from Suc.prems(1) show ?case
  proof (cases rule: sweep_Suc_cases)
    case invalid
    then show ?thesis by simp
  next
    case second_chance
    let ?t = "clearRef ?h ?s1"
    show ?thesis
    proof (cases "j = 1")
      case True
      then have ph: "?p = ?h" by simp
      have "\<not> refbit (bufDescTable ?t ! ?h)" using h by (simp add: clearRef_nth)
      with sweep_None_refbit_mono [OF second_chance(3), of ?h] h
      have "\<not> refbit (bufDescTable s' ! ?h)" by auto
      with second_chance(1,2) ph show ?thesis by simp
    next
      case False
      with Suc.prems have j: "1 \<le> j - 1" "j - 1 \<le> k" by simp_all
      from Suc.IH [OF second_chance(3) _ j] Suc.prems(2) step
      have "\<not> refbit (bufDescTable s' ! ?p) \<and> valid (bufDescTable ?t ! ?p) \<and>
        (0 < pinCnt (bufDescTable ?t ! ?p) \<or> refbit (bufDescTable ?t ! ?p))"
        by simp
      with p show ?thesis by (simp add: clearRef_nth split: if_splits)
    qed
  next
    case pinned
    show ?thesis
    proof (cases "j = 1")
      case True
      then have ph: "?p = ?h" by simp
      from sweep_None_refbit_mono [OF pinned(4), of ?h] h pinned(2)
      have "\<not> refbit (bufDescTable s' ! ?h)" by auto
      with pinned(1,3) ph show ?thesis by simp
    next
      case False
      with Suc.prems have j: "1 \<le> j - 1" "j - 1 \<le> k" by simp_all
      from Suc.IH [OF pinned(4) _ j] Suc.prems(2) step show ?thesis by simp
    qed
  next
    case (evict r')
    from evict(5) have False by (cases r') (auto dest: evict_frame)
    then show ?thesis ..
  qed
qed

lemma sweep_None_full:
  assumes "sweep (numBufs s) s = (Inr None, s')" "i < numBufs s"
  shows "\<not> refbit (bufDescTable s' ! i)" "valid (bufDescTable s ! i)"
    "0 < pinCnt (bufDescTable s ! i) \<or> refbit (bufDescTable s ! i)"
proof -
  from assms(2) have N: "0 < numBufs s" by (rule le_less_trans [OF le0])
  from visit_all [OF N assms(2), of "clockHand s"] obtain j
    where j: "1 \<le> j" "j \<le> numBufs s" "(clockHand s + j) mod numBufs s = i" by blast
  from sweep_None_visited [OF assms(1) N j(1,2)] j(3)
  show "\<not> refbit (bufDescTable s' ! i)" "valid (bufDescTable s ! i)"
    "0 < pinCnt (bufDescTable s ! i) \<or> refbit (bufDescTable s ! i)" by simp_all
qed

lemma allocBuf_decreases:
  assumes "sweep (numBufs s) s = (Inr None, s')" "someUnpinned s'"
  shows "someRef s \<and> \<not> someRef s'"
proof -
  have len: "numBufs s' = numBufs s" using assms(1) by (rule sweep_length)
  from assms(2) obtain d where d: "d \<in> set (bufDescTable s')" "pinCnt d = 0"
    unfolding someUnpinned_def list_ex_iff by blast
  from d(1) obtain i where i': "i < numBufs s'" "bufDescTable s' ! i = d"
    unfolding in_set_conv_nth by blast
  with d(2) len have i: "i < numBufs s" "pinCnt (bufDescTable s' ! i) = 0" by simp_all
  from sweep_None_frame [OF assms(1)]
  have "map (\<lambda>d. d\<lparr>refbit := False\<rparr>) (bufDescTable s') =
      map (\<lambda>d. d\<lparr>refbit := False\<rparr>) (bufDescTable s)" by blast
  from this i(1)
  have "(bufDescTable s' ! i)\<lparr>refbit := False\<rparr> = (bufDescTable s ! i)\<lparr>refbit := False\<rparr>"
    by (rule same_upto_refbit)
  then have "pinCnt (bufDescTable s' ! i) = pinCnt (bufDescTable s ! i)"
    by (rule same_upto_refbit_fields)
  with i(2) sweep_None_full(3) [OF assms(1) i(1)] have "refbit (bufDescTable s ! i)" by simp
  with i(1) have "\<exists>d \<in> set (bufDescTable s). refbit d" by (metis nth_mem)
  then have "someRef s" by (simp add: someRef_def list_ex_iff)
  moreover have "\<not> someRef s'"
  proof
    assume "someRef s'"
    then obtain e where e: "e \<in> set (bufDescTable s')" "refbit e"
      unfolding someRef_def list_ex_iff by blast
    from e(1) obtain k where k: "k < numBufs s'" "bufDescTable s' ! k = e"
      unfolding in_set_conv_nth by blast
    from k(1) len have "k < numBufs s" by simp
    from sweep_None_full(1) [OF assms(1) this] k(2) e(2) show False by simp
  qed
  ultimately show ?thesis ..
qed

termination allocBuf
proof (relation "measure (\<lambda>s. if someRef s then 1 else 0)", goal_cases)
  case 1
  show ?case by simp
next
  case (2 s x y b)
  from 2(1,2,3) have "sweep (numBufs s) s = (Inr None, y)" by simp
  from this 2(4) have "someRef s \<and> \<not> someRef y" by (rule allocBuf_decreases)
  then show ?case by simp
qed

declare allocBuf.simps [simp del]

subsection \<open>The public operations\<close>

text \<open>
  Small steps the operations share: \<^verbatim>\<open>bufPool[id] = page\<close>; \<^verbatim>\<open>hashTable->insert\<close>
  followed by \<^verbatim>\<open>Set\<close> (an insert that throws leaves the descriptor alone);
  \<^verbatim>\<open>pinCnt++\<close>; \<^verbatim>\<open>refbit = true\<close>.
\<close>

definition storePage :: "FrameId \<Rightarrow> Page \<Rightarrow> BufMgr \<Rightarrow> BufMgr" where
  "storePage fr pg s = s\<lparr>bufPool := (bufPool s)[fr := pg]\<rparr>"

definition insertAndSet :: "fileid \<Rightarrow> PageId \<Rightarrow> FrameId \<Rightarrow> BufMgr \<Rightarrow> error + BufMgr" where
  "insertAndSet f p fr s =
     (case ht_insert (hashTable s) f p fr of
        Inl e \<Rightarrow> Inl e
      | Inr ht \<Rightarrow>
          Inr (s\<lparr>hashTable := ht,
                 bufDescTable := (bufDescTable s)[fr := BufDesc_Set f p (bufDescTable s ! fr)]\<rparr>))"

definition pin :: "FrameId \<Rightarrow> BufMgr \<Rightarrow> BufMgr" where
  "pin fr s =
     s\<lparr>bufDescTable :=
         (bufDescTable s)[fr := (bufDescTable s ! fr)\<lparr>pinCnt := pinCnt (bufDescTable s ! fr) + 1\<rparr>]\<rparr>"

definition setRef :: "FrameId \<Rightarrow> BufMgr \<Rightarrow> BufMgr" where
  "setRef fr s =
     s\<lparr>bufDescTable := (bufDescTable s)[fr := (bufDescTable s ! fr)\<lparr>refbit := True\<rparr>]\<rparr>"

text \<open>
  \<^verbatim>\<open>readPage\<close> (lines 143 to 164). The value returned is the frame whose buffer the
  caller gets a pointer to. On a miss the page is read from the file into a temporary
  before \<^verbatim>\<open>allocBuf\<close> is called.
\<close>

definition readPage :: "BufMgr \<Rightarrow> fileid \<Rightarrow> PageId \<Rightarrow> FrameId outcome" where
  "readPage s f p =
     (case ht_lookup (hashTable s) f p of
        Some fr \<Rightarrow>
          if fr < numBufs s then (Inr fr, setRef fr (pin fr s)) else (Inl (OutOfRange fr), s)
      | None \<Rightarrow>
          (case file_readPage f p s of
             (Inl e, s1) \<Rightarrow> (Inl e, s1)
           | (Inr pageTemp, s1) \<Rightarrow>
               (case allocBuf s1 of
                  (Inl e, s2) \<Rightarrow> (Inl e, s2)
                | (Inr fr, s2) \<Rightarrow>
                    (let s3 = storePage fr pageTemp s2
                     in case insertAndSet f p fr s3 of
                          Inl e \<Rightarrow> (Inl e, s3)
                        | Inr s4 \<Rightarrow> (Inr fr, setRef fr s4)))))"

text \<open>\<^verbatim>\<open>unPinPage\<close> (lines 173 to 191).\<close>

definition unPinPage :: "BufMgr \<Rightarrow> fileid \<Rightarrow> PageId \<Rightarrow> bool \<Rightarrow> unit outcome" where
  "unPinPage s f p dirtyFlag =
     (case ht_lookup (hashTable s) f p of
        None \<Rightarrow> (Inr (), s)
      | Some fr \<Rightarrow>
          if \<not> fr < numBufs s then (Inl (OutOfRange fr), s)
          else if pinCnt (bufDescTable s ! fr) = 0 then (Inl (PageNotPinned f p fr), s)
          else
            (let d = bufDescTable s ! fr;
                 d1 = d\<lparr>pinCnt := pinCnt d - 1\<rparr>;
                 d2 = (if dirtyFlag then d1\<lparr>dirty := True\<rparr> else d1)
             in (Inr (), s\<lparr>bufDescTable := (bufDescTable s)[fr := d2]\<rparr>)))"

text \<open>
  \<^verbatim>\<open>flushFile\<close> (lines 201 to 228). The argument is a \<^verbatim>\<open>const File*\<close>; \<open>None\<close> is the
  null pointer, which the comparison of line 205 finds equal to the file of every frame
  that has no owner. First the body of the loop for one frame of the file (lines 207 to
  225); an exception comes with the state at the throw. \<^verbatim>\<open>remove\<close> is not guarded here,
  so a missing index entry ends the call with \<open>HashNotFound\<close>, after the write-back; the
  index never holds a key with a null file.
\<close>

definition flushFrame :: "fileid option \<Rightarrow> FrameId \<Rightarrow> BufMgr \<Rightarrow> unit outcome" where
  "flushFrame fo k s =
     (let d = bufDescTable s ! k in
      if pinCnt d > 0
      then (case fo of
              None \<Rightarrow> (Inl NullFile, s)
            | Some f \<Rightarrow> (Inl (PagePinned f (pageNo d) k), s))
      else if \<not> valid d then (Inl (BadBuffer k (dirty d) (valid d) (refbit d)), s)
      else
        (case (if dirty d
               then (case owningFile d of
                       None \<Rightarrow> Inl NullFile
                     | Some g \<Rightarrow>
                         Inr ((file_writePage g (bufPool s ! k) s)
                                \<lparr>bufDescTable := (bufDescTable s)[k := d\<lparr>dirty := False\<rparr>]\<rparr>))
               else Inr s) of
           Inl e \<Rightarrow> (Inl e, s)
         | Inr s1 \<Rightarrow>
             (case fo of
                None \<Rightarrow> (Inl (HashNotFound None (pageNo d)), s1)
              | Some f \<Rightarrow>
                  (case ht_remove (hashTable s1) f (pageNo d) of
                     None \<Rightarrow> (Inl (HashNotFound (Some f) (pageNo d)), s1)
                   | Some ht \<Rightarrow>
                       (Inr (),
                        s1\<lparr>hashTable := ht,
                           bufDescTable :=
                             (bufDescTable s1)[k := BufDesc_Clear (bufDescTable s1 ! k)]\<rparr>)))))"

text \<open>The loop over the frames (lines 203 to 227), in the order of the list of frame ids.\<close>

fun flushFrames :: "fileid option \<Rightarrow> FrameId list \<Rightarrow> BufMgr \<Rightarrow> unit outcome" where
  "flushFrames fo [] s = (Inr (), s)"
| "flushFrames fo (k # ks) s =
     (if owningFile (bufDescTable s ! k) = fo
      then (case flushFrame fo k s of
              (Inl e, s1) \<Rightarrow> (Inl e, s1)
            | (Inr u, s1) \<Rightarrow> flushFrames fo ks s1)
      else flushFrames fo ks s)"

definition flushFile :: "BufMgr \<Rightarrow> fileid option \<Rightarrow> unit outcome" where
  "flushFile s fo = flushFrames fo [0..<numBufs s] s"

text \<open>
  \<^verbatim>\<open>allocPage\<close> (lines 236 to 251); \<open>fresh\<close> is the page the file hands out. The values
  returned are the new page number and the frame.
\<close>

definition allocPage :: "BufMgr \<Rightarrow> fileid \<Rightarrow> Page \<Rightarrow> (PageId \<times> FrameId) outcome" where
  "allocPage s f fresh =
     (case file_allocatePage f fresh s of
        (pg, s1) \<Rightarrow>
          (let newPageId = page_number pg
           in case allocBuf s1 of
                (Inl e, s2) \<Rightarrow> (Inl e, s2)
              | (Inr fr, s2) \<Rightarrow>
                  (case file_readPage f newPageId s2 of
                     (Inl e, s3) \<Rightarrow> (Inl e, s3)
                   | (Inr pg', s3) \<Rightarrow>
                       (let s4 = storePage fr pg' s3
                        in case insertAndSet f newPageId fr s4 of
                             Inl e \<Rightarrow> (Inl e, s4)
                           | Inr s5 \<Rightarrow> (Inr (newPageId, fr), s5)))))"

text \<open>
  \<^verbatim>\<open>disposePage\<close> (lines 259 to 273): a resident page has its descriptor cleared and
  its index entry removed, with no look at the pin count; then the file deletes the page.
\<close>

definition disposePage :: "BufMgr \<Rightarrow> fileid \<Rightarrow> PageId \<Rightarrow> unit outcome" where
  "disposePage s f p =
     (case ht_lookup (hashTable s) f p of
        None \<Rightarrow> (Inr (), file_deletePage f p s)
      | Some fr \<Rightarrow>
          if \<not> fr < numBufs s then (Inl (OutOfRange fr), s)
          else
            (let s1 = s\<lparr>bufDescTable := (bufDescTable s)[fr := BufDesc_Clear (bufDescTable s ! fr)]\<rparr>;
                 s2 = (case ht_remove (hashTable s1) f p of
                         None \<Rightarrow> s1
                       | Some ht \<Rightarrow> s1\<lparr>hashTable := ht\<rparr>)
             in (Inr (), file_deletePage f p s2)))"

subsection \<open>Predicates on states\<close>

definition allPinnedValid :: "BufMgr \<Rightarrow> bool" where
  "allPinnedValid s = list_all (\<lambda>d. valid d \<and> 0 < pinCnt d) (bufDescTable s)"

definition dirtyOwned :: "BufMgr \<Rightarrow> bool" where
  "dirtyOwned s = list_all (\<lambda>d. dirty d \<longrightarrow> owningFile d \<noteq> None) (bufDescTable s)"

text \<open>
  The descriptor invariant of the specification: an invalid frame has pin count 0, is not
  dirty and has no owning file.
\<close>

definition invalidClean :: "BufMgr \<Rightarrow> bool" where
  "invalidClean s =
     list_all (\<lambda>d. \<not> valid d \<longrightarrow> pinCnt d = 0 \<and> \<not> dirty d \<and> owningFile d = None)
       (bufDescTable s)"

text \<open>
  The invariant the operations maintain, used in the proofs: besides the above, the index
  maps (file, page) to a frame exactly when that frame is valid and holds that page.
\<close>

definition wfTab :: "BufDesc list \<Rightarrow> (fileid \<times> PageId \<rightharpoonup> FrameId) \<Rightarrow> bool" where
  "wfTab t ht \<longleftrightarrow>
     (\<forall>i < length t. \<not> valid (t ! i) \<longrightarrow>
        pinCnt (t ! i) = 0 \<and> \<not> dirty (t ! i) \<and> owningFile (t ! i) = None) \<and>
     (\<forall>f p i. ht (f, p) = Some i \<longrightarrow>
        i < length t \<and> valid (t ! i) \<and> owningFile (t ! i) = Some f \<and> pageNo (t ! i) = p) \<and>
     (\<forall>i < length t. valid (t ! i) \<longrightarrow>
        (\<exists>f. owningFile (t ! i) = Some f \<and> ht (f, pageNo (t ! i)) = Some i))"

definition wf_state :: "BufMgr \<Rightarrow> bool" where
  "wf_state s = wfTab (bufDescTable s) (hashTable s)"

text \<open>
  The buffered pages of the dirty frames of a file among the frames \<open>ks\<close>, in the order of
  \<open>ks\<close>, and the effect of one \<^verbatim>\<open>writePage\<close> on the files: what a flush writes back.
\<close>

definition dirtyPages :: "fileid \<Rightarrow> BufMgr \<Rightarrow> FrameId list \<Rightarrow> Page list" where
  "dirtyPages f s ks =
     map (\<lambda>j. bufPool s ! j)
       (filter (\<lambda>j. owningFile (bufDescTable s ! j) = Some f \<and> dirty (bufDescTable s ! j)) ks)"

definition persist :: "fileid \<Rightarrow> (fileid \<Rightarrow> (PageId \<rightharpoonup> Page)) \<Rightarrow> Page \<Rightarrow> (fileid \<Rightarrow> (PageId \<rightharpoonup> Page))" where
  "persist f fs pg = fs(f := (fs f)(page_number pg \<mapsto> pg))"

text \<open>
  Frame \<open>i\<close> holds in \<open>s'\<close> what it holds in \<open>s\<close>: the same owning file and page id, the same
  validity, and the same buffered content.
\<close>

definition keepsFrame :: "FrameId \<Rightarrow> BufMgr \<Rightarrow> BufMgr \<Rightarrow> bool" where
  "keepsFrame i s s' \<longleftrightarrow>
     owningFile (bufDescTable s' ! i) = owningFile (bufDescTable s ! i) \<and>
     pageNo (bufDescTable s' ! i) = pageNo (bufDescTable s ! i) \<and>
     valid (bufDescTable s' ! i) = valid (bufDescTable s ! i) \<and>
     bufPool s' ! i = bufPool s ! i"

subsection \<open>The fetch in the order of the specification\<close>

text \<open>
  The order of the spec's words for a fetch that misses (section 4.3): a victim frame
  first, then the read of the page into it, then the index entry and \<^verbatim>\<open>Set\<close>.
\<close>

definition readPage_spec :: "BufMgr \<Rightarrow> fileid \<Rightarrow> PageId \<Rightarrow> FrameId outcome" where
  "readPage_spec s f p =
     (case ht_lookup (hashTable s) f p of
        Some fr \<Rightarrow>
          if fr < numBufs s then (Inr fr, setRef fr (pin fr s)) else (Inl (OutOfRange fr), s)
      | None \<Rightarrow>
          (case allocBuf s of
             (Inl e, s1) \<Rightarrow> (Inl e, s1)
           | (Inr fr, s1) \<Rightarrow>
               (case file_readPage f p s1 of
                  (Inl e, s2) \<Rightarrow> (Inl e, s2)
                | (Inr pg, s2) \<Rightarrow>
                    (let s3 = storePage fr pg s2
                     in case insertAndSet f p fr s3 of
                          Inl e \<Rightarrow> (Inl e, s3)
                        | Inr s4 \<Rightarrow> (Inr fr, setRef fr s4)))))"

subsection \<open>Sequences of public operations\<close>

text \<open>
  A call of a public operation with its arguments (a flush may be given the null
  pointer), the state it leaves (also when it fails), and the state after a sequence of
  calls. The states \<open>run rqs (BufMgr_new n fs)\<close>
  are those reachable from a freshly constructed manager.
\<close>

datatype request =
    Fetch fileid PageId
  | Unpin fileid PageId bool
  | Allocate fileid Page
  | Dispose fileid PageId
  | Flush "fileid option"

definition perform :: "request \<Rightarrow> BufMgr \<Rightarrow> BufMgr" where
  "perform rq s =
     (case rq of
        Fetch f p \<Rightarrow> snd (readPage s f p)
      | Unpin f p b \<Rightarrow> snd (unPinPage s f p b)
      | Allocate f fresh \<Rightarrow> snd (allocPage s f fresh)
      | Dispose f p \<Rightarrow> snd (disposePage s f p)
      | Flush fo \<Rightarrow> snd (flushFile s fo))"

fun run :: "request list \<Rightarrow> BufMgr \<Rightarrow> BufMgr" where
  "run [] s = s"
| "run (rq # rqs) s = run rqs (perform rq s)"

subsection \<open>Concrete states for the examples\<close>

definition demo_files :: "fileid \<Rightarrow> (PageId \<rightharpoonup> Page)" where
  "demo_files = (\<lambda>f. Map.empty)(1 := [1 \<mapsto> \<lparr>page_number = 1, pdata = ''one''\<rparr>,
                                       2 \<mapsto> \<lparr>page_number = 2, pdata = ''two''\<rparr>])"

definition st_pinned :: BufMgr where
  "st_pinned =
     \<lparr>bufDescTable =
        [\<lparr>owningFile = Some 1, pageNo = 1, frameNo = 0, pinCnt = 1, dirty = True, valid = True,
          refbit = True\<rparr>],
      bufPool = [\<lparr>page_number = 1, pdata = ''ONE''\<rparr>],
      hashTable = [(1, 1) \<mapsto> 0],
      clockHand = 0,
      files = demo_files,
      io = []\<rparr>"

definition st_dirty :: BufMgr where
  "st_dirty =
     \<lparr>bufDescTable =
        [\<lparr>owningFile = Some 1, pageNo = 1, frameNo = 0, pinCnt = 0, dirty = True, valid = True,
          refbit = False\<rparr>],
      bufPool = [\<lparr>page_number = 1, pdata = ''ONE''\<rparr>],
      hashTable = [(1, 1) \<mapsto> 0],
      clockHand = 0,
      files = demo_files,
      io = []\<rparr>"

definition st_three :: BufMgr where
  "st_three =
     \<lparr>bufDescTable =
        [\<lparr>owningFile = Some 1, pageNo = 1, frameNo = 0, pinCnt = 0, dirty = True, valid = True,
          refbit = True\<rparr>,
         \<lparr>owningFile = Some 1, pageNo = 2, frameNo = 1, pinCnt = 1, dirty = False, valid = True,
          refbit = True\<rparr>,
         \<lparr>owningFile = Some 1, pageNo = 3, frameNo = 2, pinCnt = 0, dirty = True, valid = True,
          refbit = False\<rparr>],
      bufPool = [\<lparr>page_number = 1, pdata = ''ONE''\<rparr>, \<lparr>page_number = 2, pdata = ''two''\<rparr>,
                 \<lparr>page_number = 3, pdata = ''THREE''\<rparr>],
      hashTable = [(1, 1) \<mapsto> 0, (1, 2) \<mapsto> 1, (1, 3) \<mapsto> 2],
      clockHand = 2,
      files = demo_files,
      io = []\<rparr>"

definition st_one_pinned :: BufMgr where
  "st_one_pinned = run [Fetch 1 1] (BufMgr_new 2 demo_files)"

text \<open>
  A reachable state with one frame that is valid, dirty, unpinned and has its reference
  bit off: page 1 is fetched, a fetch of page 2 fails because the only frame is pinned
  (its sweep switches the reference bit off), and page 1 is unpinned as dirty.
\<close>

definition st_reached :: BufMgr where
  "st_reached = run [Fetch 1 1, Fetch 1 2, Unpin 1 1 True] (BufMgr_new 1 demo_files)"

section \<open>Facts about victim selection\<close>

lemma file_writePage_simps [simp]:
  "bufDescTable (file_writePage f pg s) = bufDescTable s"
  "bufPool (file_writePage f pg s) = bufPool s"
  "hashTable (file_writePage f pg s) = hashTable s"
  "clockHand (file_writePage f pg s) = clockHand s"
  "files (file_writePage f pg s) = (files s)(f := (files s f)(page_number pg \<mapsto> pg))"
  "io (file_writePage f pg s) = io s @ [IOWrite f pg]"
  by (simp_all add: file_writePage_def)

lemma allocBuf_cases [consumes 1, case_names fault found again full]:
  assumes "allocBuf s = (r, s')"
  obtains e where "sweep (numBufs s) s = (Inl e, s')" "r = Inl e"
  | fr where "sweep (numBufs s) s = (Inr (Some fr), s')" "r = Inr fr"
  | s1 where "sweep (numBufs s) s = (Inr None, s1)" "someUnpinned s1" "allocBuf s1 = (r, s')"
  | "sweep (numBufs s) s = (Inr None, s')" "\<not> someUnpinned s'" "r = Inl BufferExceeded"
proof -
  obtain r0 s0 where sw: "sweep (numBufs s) s = (r0, s0)" by (cases "sweep (numBufs s) s")
  show thesis
  proof (cases r0)
    case (Inl e)
    with sw assms that(1) show thesis by (simp add: allocBuf.simps)
  next
    case (Inr o1)
    show thesis
    proof (cases o1)
      case (Some fr)
      with Inr sw assms that(2) show thesis by (simp add: allocBuf.simps)
    next
      case None
      show thesis
      proof (cases "someUnpinned s0")
        case True
        with None Inr sw assms that(3) show thesis by (simp add: allocBuf.simps)
      next
        case False
        with None Inr sw assms that(4) show thesis by (simp add: allocBuf.simps)
      qed
    qed
  qed
qed

lemma sweep_Some_lt:
  "sweep k s = (Inr (Some fr), s') \<Longrightarrow> 0 < numBufs s \<Longrightarrow> fr < numBufs s"
proof (induction k arbitrary: s)
  case 0
  then show ?case by simp
next
  case (Suc k)
  from Suc.prems(1) show ?case
  proof (cases rule: sweep_Suc_cases)
    case invalid
    with Suc.prems(2) show ?thesis by simp
  next
    case second_chance
    from Suc.IH [OF second_chance(3)] Suc.prems(2) show ?thesis by simp
  next
    case pinned
    from Suc.IH [OF pinned(4)] Suc.prems(2) show ?thesis by simp
  next
    case (evict r')
    from evict(5) obtain fr' where "r' = Inr fr'" "fr' = fr" by (cases r') auto
    with evict(4) have "fr = clockHand (advanceClock s)" by (auto dest: evict_frame)
    with Suc.prems(2) show ?thesis by simp
  qed
qed

lemma allocBuf_length: "allocBuf s = (r, s') \<Longrightarrow> numBufs s' = numBufs s"
proof (induction s rule: allocBuf.induct)
  case (1 s)
  from "1.prems" show ?case
  proof (cases rule: allocBuf_cases)
    case (fault e)
    then show ?thesis by (auto dest: sweep_length)
  next
    case (found fr)
    then show ?thesis by (auto dest: sweep_length)
  next
    case (again s1)
    from "1.IH" [OF again(1) [symmetric] refl refl again(2) again(3)] sweep_length [OF again(1)]
    show ?thesis by simp
  next
    case full
    then show ?thesis by (auto dest: sweep_length)
  qed
qed

lemma allocBuf_frame_lt: "allocBuf s = (Inr fr, s') \<Longrightarrow> fr < numBufs s"
proof (induction s rule: allocBuf.induct)
  case (1 s)
  from "1.prems" show ?case
  proof (cases rule: allocBuf_cases)
    case (fault e)
    then show ?thesis by simp
  next
    case (found fr')
    then have sw: "sweep (numBufs s) s = (Inr (Some fr), s')" by simp
    have "0 < numBufs s"
    proof (rule ccontr)
      assume "\<not> 0 < numBufs s"
      with sw show False by simp
    qed
    with sw show ?thesis by (rule sweep_Some_lt)
  next
    case (again s1)
    from "1.IH" [OF again(1) [symmetric] refl refl again(2) again(3)] sweep_length [OF again(1)]
    show ?thesis by simp
  next
    case full
    then show ?thesis by simp
  qed
qed

lemma upto_refbit_list_all:
  assumes "map (\<lambda>d. d\<lparr>refbit := False\<rparr>) xs = map (\<lambda>d. d\<lparr>refbit := False\<rparr>) ys"
    and "\<And>d. P (d\<lparr>refbit := False\<rparr>) = P d"
  shows "list_all P xs = list_all P ys"
proof -
  have "list_all P zs = list_all P (map (\<lambda>d. d\<lparr>refbit := False\<rparr>) zs)" for zs
    by (simp add: list_all_iff assms(2))
  with assms(1) show ?thesis by metis
qed

lemma upto_refbit_list_ex:
  assumes "map (\<lambda>d. d\<lparr>refbit := False\<rparr>) xs = map (\<lambda>d. d\<lparr>refbit := False\<rparr>) ys"
    and "\<And>d. P (d\<lparr>refbit := False\<rparr>) = P d"
  shows "list_ex P xs = list_ex P ys"
proof -
  have "list_ex P zs = list_ex P (map (\<lambda>d. d\<lparr>refbit := False\<rparr>) zs)" for zs
    by (simp add: list_ex_iff assms(2))
  with assms(1) show ?thesis by metis
qed

lemma sweep_None_someUnpinned:
  "sweep k s = (Inr None, s') \<Longrightarrow> someUnpinned s' = someUnpinned s"
  unfolding someUnpinned_def
  by (rule upto_refbit_list_ex) (simp_all add: sweep_None_frame)

lemma sweep_None_dirtyOwned:
  "sweep k s = (Inr None, s') \<Longrightarrow> dirtyOwned s' = dirtyOwned s"
  unfolding dirtyOwned_def
  by (rule upto_refbit_list_all) (simp_all add: sweep_None_frame)

lemma clearRef_allPinnedValid [simp]: "allPinnedValid (clearRef h s) = allPinnedValid s"
  unfolding allPinnedValid_def
  by (rule upto_refbit_list_all) (simp_all add: clearRef_map)

lemma clearRef_dirtyOwned [simp]: "dirtyOwned (clearRef h s) = dirtyOwned s"
  unfolding dirtyOwned_def
  by (rule upto_refbit_list_all) (simp_all add: clearRef_map)

lemma advanceClock_preds [simp]:
  "allPinnedValid (advanceClock s) = allPinnedValid s"
  "dirtyOwned (advanceClock s) = dirtyOwned s"
  by (simp_all add: allPinnedValid_def dirtyOwned_def)

lemma sweep_allPinned:
  "0 < numBufs s \<Longrightarrow> allPinnedValid s \<Longrightarrow> \<exists>s'. sweep k s = (Inr None, s')"
proof (induction k arbitrary: s)
  case 0
  then show ?case by simp
next
  case (Suc k)
  let ?s1 = "advanceClock s"
  let ?h = "clockHand ?s1"
  from Suc.prems(1) have h: "?h < numBufs s" by simp
  with Suc.prems(2) have d: "valid (bufDescTable s ! ?h)" "0 < pinCnt (bufDescTable s ! ?h)"
    by (simp_all add: allPinnedValid_def list_all_length)
  show ?case
  proof (cases "refbit (bufDescTable s ! ?h)")
    case True
    from Suc.IH [of "clearRef ?h ?s1"] Suc.prems
    obtain s' where "sweep k (clearRef ?h ?s1) = (Inr None, s')" by auto
    with d True show ?thesis by (simp add: Let_def)
  next
    case False
    from Suc.IH [of ?s1] Suc.prems
    obtain s' where "sweep k ?s1 = (Inr None, s')" by auto
    with d False show ?thesis by (simp add: Let_def)
  qed
qed

lemma sweep_no_fault:
  "sweep k s = (Inl e, s') \<Longrightarrow> 0 < numBufs s \<Longrightarrow> dirtyOwned s \<Longrightarrow> False"
proof (induction k arbitrary: s)
  case 0
  then show ?case by simp
next
  case (Suc k)
  from Suc.prems(1) show ?case
  proof (cases rule: sweep_Suc_cases)
    case invalid
    then show ?thesis by simp
  next
    case second_chance
    from Suc.IH [OF second_chance(3)] Suc.prems(2,3) show ?thesis by simp
  next
    case pinned
    from Suc.IH [OF pinned(4)] Suc.prems(2,3) show ?thesis by simp
  next
    case (evict r')
    let ?h = "clockHand (advanceClock s)"
    from Suc.prems(2) have h: "?h < numBufs s" by simp
    with Suc.prems(3) have "dirty (bufDescTable s ! ?h) \<longrightarrow> owningFile (bufDescTable s ! ?h) \<noteq> None"
      by (simp add: dirtyOwned_def list_all_length)
    moreover from evict(5) obtain e' where "r' = Inl e'" by (cases r') auto
    ultimately show ?thesis using evict(4)
      by (auto simp: evict_def writeBack_def Let_def split: sum.splits if_splits option.splits)
  qed
qed

lemma sweep_full_allPinned_result:
  assumes "allPinnedValid s" "clockHand s < numBufs s"
  shows "sweep (numBufs s) s =
    (Inr None, s\<lparr>bufDescTable := map (\<lambda>d. d\<lparr>refbit := False\<rparr>) (bufDescTable s)\<rparr>)"
proof -
  from assms(2) have N: "0 < numBufs s" by (rule le_less_trans [OF le0])
  from sweep_allPinned [OF N assms(1)] obtain s'
    where sw: "sweep (numBufs s) s = (Inr None, s')" by blast
  note fr = sweep_None_frame [OF sw]
  from fr have m: "map (\<lambda>d. d\<lparr>refbit := False\<rparr>) (bufDescTable s') =
      map (\<lambda>d. d\<lparr>refbit := False\<rparr>) (bufDescTable s)" by blast
  have len: "numBufs s' = numBufs s" using sw by (rule sweep_length)
  have "bufDescTable s' = map (\<lambda>d. d\<lparr>refbit := False\<rparr>) (bufDescTable s)"
  proof (rule nth_equalityI)
    show "length (bufDescTable s') = length (map (\<lambda>d. d\<lparr>refbit := False\<rparr>) (bufDescTable s))"
      using len by simp
  next
    fix i assume "i < numBufs s'"
    with len have i: "i < numBufs s" by simp
    from sweep_None_full(1) [OF sw i]
    have "bufDescTable s' ! i = (bufDescTable s' ! i)\<lparr>refbit := False\<rparr>" by simp
    also from m i have "\<dots> = (bufDescTable s ! i)\<lparr>refbit := False\<rparr>" by (rule same_upto_refbit)
    finally show "bufDescTable s' ! i = map (\<lambda>d. d\<lparr>refbit := False\<rparr>) (bufDescTable s) ! i"
      using i by simp
  qed
  moreover from sweep_None_hand [OF sw assms(2)] assms(2) have "clockHand s' = clockHand s"
    by simp
  ultimately have "s' = s\<lparr>bufDescTable := map (\<lambda>d. d\<lparr>refbit := False\<rparr>) (bufDescTable s)\<rparr>"
    using fr by (intro BufMgr.equality) simp_all
  with sw show ?thesis by simp
qed

lemma allocBuf_some_unpinned:
  assumes "someUnpinned s" "dirtyOwned s"
  shows "\<exists>fr s'. allocBuf s = (Inr fr, s') \<and> fr < numBufs s"
proof -
  from assms(1) have N: "0 < numBufs s"
    by (cases "bufDescTable s") (simp_all add: someUnpinned_def)
  obtain r0 s1 where sw: "sweep (numBufs s) s = (r0, s1)" by (cases "sweep (numBufs s) s")
  show ?thesis
  proof (cases r0)
    case (Inl e)
    with sw sweep_no_fault [OF _ N assms(2)] show ?thesis by blast
  next
    case (Inr o1)
    show ?thesis
    proof (cases o1)
      case (Some fr)
      with Inr sw have "allocBuf s = (Inr fr, s1)" by (simp add: allocBuf.simps)
      moreover from Some Inr sw N have "fr < numBufs s" by (auto dest: sweep_Some_lt)
      ultimately show ?thesis by blast
    next
      case None
      with Inr sw have sw1: "sweep (numBufs s) s = (Inr None, s1)" by simp
      have len: "numBufs s1 = numBufs s" using sw1 by (rule sweep_length)
      have u1: "someUnpinned s1" using sweep_None_someUnpinned [OF sw1] assms(1) by simp
      have d1: "dirtyOwned s1" using sweep_None_dirtyOwned [OF sw1] assms(2) by simp
      from sw1 u1 have a: "allocBuf s = allocBuf s1" by (simp add: allocBuf.simps)
      obtain r1 s2 where sw2: "sweep (numBufs s1) s1 = (r1, s2)"
        by (cases "sweep (numBufs s1) s1")
      from u1 obtain d where d: "d \<in> set (bufDescTable s1)" "pinCnt d = 0"
        unfolding someUnpinned_def list_ex_iff by blast
      from d(1) obtain i where i: "i < numBufs s1" "bufDescTable s1 ! i = d"
        unfolding in_set_conv_nth by blast
      from i(1) len have i': "i < numBufs s" by simp
      have nr: "\<not> refbit (bufDescTable s1 ! i)" using sw1 i' by (rule sweep_None_full(1))
      show ?thesis
      proof (cases r1)
        case (Inl e)
        from N len have "0 < numBufs s1" by simp
        with Inl sw2 sweep_no_fault [OF _ _ d1] show ?thesis by blast
      next
        case r1: (Inr o2)
        show ?thesis
        proof (cases o2)
          case (Some fr)
          with r1 sw2 have "allocBuf s1 = (Inr fr, s2)" by (simp add: allocBuf.simps)
          moreover from Some r1 sw2 N len have "fr < numBufs s" by (auto dest: sweep_Some_lt)
          ultimately show ?thesis using a by auto
        next
          case None
          with r1 sw2 have "sweep (numBufs s1) s1 = (Inr None, s2)" by simp
          from sweep_None_full(3) [OF this i(1)] nr i(2) d(2) show ?thesis by simp
        qed
      qed
    qed
  qed
qed

section \<open>Facts about fetching\<close>

lemma pin_simps [simp]:
  "bufPool (pin fr s) = bufPool s"
  "hashTable (pin fr s) = hashTable s"
  "clockHand (pin fr s) = clockHand s"
  "files (pin fr s) = files s"
  "io (pin fr s) = io s"
  "numBufs (pin fr s) = numBufs s"
  by (simp_all add: pin_def)

lemma setRef_simps [simp]:
  "bufPool (setRef fr s) = bufPool s"
  "hashTable (setRef fr s) = hashTable s"
  "clockHand (setRef fr s) = clockHand s"
  "files (setRef fr s) = files s"
  "io (setRef fr s) = io s"
  "numBufs (setRef fr s) = numBufs s"
  by (simp_all add: setRef_def)

lemma storePage_simps [simp]:
  "bufDescTable (storePage fr pg s) = bufDescTable s"
  "bufPool (storePage fr pg s) = (bufPool s)[fr := pg]"
  "hashTable (storePage fr pg s) = hashTable s"
  "clockHand (storePage fr pg s) = clockHand s"
  "files (storePage fr pg s) = files s"
  "io (storePage fr pg s) = io s"
  by (simp_all add: storePage_def)

lemma insertAndSet_Inr:
  "insertAndSet f p fr s = Inr s' \<longleftrightarrow>
     hashTable s (f, p) = None \<and>
     s' = s\<lparr>hashTable := (hashTable s)((f, p) \<mapsto> fr),
            bufDescTable := (bufDescTable s)[fr := BufDesc_Set f p (bufDescTable s ! fr)]\<rparr>"
  by (auto simp: insertAndSet_def ht_insert_def split: option.splits)

lemma insertAndSet_None:
  "hashTable s (f, p) = None \<Longrightarrow>
     insertAndSet f p fr s =
       Inr (s\<lparr>hashTable := (hashTable s)((f, p) \<mapsto> fr),
              bufDescTable := (bufDescTable s)[fr := BufDesc_Set f p (bufDescTable s ! fr)]\<rparr>)"
  by (simp add: insertAndSet_Inr)

lemma removeAndClear_ht_None:
  "hashTable s k = None \<Longrightarrow> hashTable (removeAndClear h s) k = None"
  by (simp add: removeAndClear_def Let_def ht_remove_def split: option.splits)

lemma evict_ht_None:
  "evict h s = (r, s') \<Longrightarrow> hashTable s k = None \<Longrightarrow> hashTable s' k = None"
  by (auto simp: evict_def writeBack_def Let_def removeAndClear_ht_None
      split: sum.splits if_splits option.splits)

lemma sweep_ht_None:
  "sweep k s = (r, s') \<Longrightarrow> hashTable s key = None \<Longrightarrow> hashTable s' key = None"
proof (induction k arbitrary: s)
  case 0
  then show ?case by simp
next
  case (Suc k)
  from Suc.prems(1) show ?case
  proof (cases rule: sweep_Suc_cases)
    case invalid
    with Suc.prems(2) show ?thesis by simp
  next
    case second_chance
    from Suc.IH [OF second_chance(3)] Suc.prems(2) show ?thesis by simp
  next
    case pinned
    from Suc.IH [OF pinned(4)] Suc.prems(2) show ?thesis by simp
  next
    case (evict r')
    from evict_ht_None [OF evict(4)] Suc.prems(2) show ?thesis by simp
  qed
qed

lemma allocBuf_ht_None:
  "allocBuf s = (r, s') \<Longrightarrow> hashTable s key = None \<Longrightarrow> hashTable s' key = None"
proof (induction s rule: allocBuf.induct)
  case (1 s)
  from "1.prems"(1) show ?case
  proof (cases rule: allocBuf_cases)
    case (fault e)
    from sweep_ht_None [OF fault(1) "1.prems"(2)] show ?thesis .
  next
    case (found fr)
    from sweep_ht_None [OF found(1) "1.prems"(2)] show ?thesis .
  next
    case (again s1)
    from sweep_ht_None [OF again(1) "1.prems"(2)] have "hashTable s1 key = None" .
    from "1.IH" [OF again(1) [symmetric] refl refl again(2) again(3) this] show ?thesis .
  next
    case full
    from sweep_ht_None [OF full(1) "1.prems"(2)] show ?thesis .
  qed
qed

lemma readPage_hit:
  "hashTable s (f, p) = Some fr \<Longrightarrow> fr < numBufs s \<Longrightarrow>
     readPage s f p =
       (Inr fr,
        s\<lparr>bufDescTable := (bufDescTable s)
             [fr := (bufDescTable s ! fr)
                \<lparr>pinCnt := pinCnt (bufDescTable s ! fr) + 1, refbit := True\<rparr>]\<rparr>)"
  by (simp add: readPage_def ht_lookup_def pin_def setRef_def)

text \<open>What a fetch that misses does once the page has been read and a frame found.\<close>

lemma readPage_miss:
  assumes "hashTable s (f, p) = None" "files s f p = Some pg"
    "allocBuf (s\<lparr>io := io s @ [IORead f p]\<rparr>) = (Inr fr, s2)"
  shows "readPage s f p =
    (Inr fr,
     s2\<lparr>bufPool := (bufPool s2)[fr := pg],
        hashTable := (hashTable s2)((f, p) \<mapsto> fr),
        bufDescTable := (bufDescTable s2)[fr := BufDesc_Set f p (bufDescTable s2 ! fr)]\<rparr>)"
proof -
  from assms(1) have "hashTable (s\<lparr>io := io s @ [IORead f p]\<rparr>) (f, p) = None" by simp
  with assms(3) have n: "hashTable s2 (f, p) = None" by (rule allocBuf_ht_None)
  have set: "xs[fr := (xs[fr := BufDesc_Set f p d] ! fr)\<lparr>refbit := True\<rparr>]
      = xs[fr := BufDesc_Set f p d]" for xs d
    by (cases "fr < length xs") (simp_all add: BufDesc_Set_def list_update_beyond)
  from assms n show ?thesis
    by (simp add: readPage_def ht_lookup_def file_readPage_def insertAndSet_None
        setRef_def storePage_def set)
qed

lemma readPage_miss_fail:
  assumes "hashTable s (f, p) = None" "files s f p = Some pg"
    "allocBuf (s\<lparr>io := io s @ [IORead f p]\<rparr>) = (Inl e, s2)"
  shows "readPage s f p = (Inl e, s2)"
  using assms by (simp add: readPage_def ht_lookup_def file_readPage_def)

lemma readPage_Inr:
  assumes "readPage s f p = (Inr fr, s1)"
  shows "hashTable s1 (f, p) = Some fr \<and> fr < numBufs s1 \<and>
    pinCnt (bufDescTable s1 ! fr) =
      (case hashTable s (f, p) of None \<Rightarrow> 1 | Some fr0 \<Rightarrow> pinCnt (bufDescTable s ! fr0) + 1)"
proof (cases "hashTable s (f, p)")
  case (Some fr0)
  show ?thesis
  proof (cases "fr0 < numBufs s")
    case True
    from readPage_hit [OF Some True] assms Some True show ?thesis by auto
  next
    case False
    with Some assms show ?thesis by (simp add: readPage_def ht_lookup_def)
  qed
next
  case None
  show ?thesis
  proof (cases "files s f p")
    case n: None
    with None assms show ?thesis by (simp add: readPage_def ht_lookup_def file_readPage_def)
  next
    case (Some pg)
    obtain r2 s2 where a: "allocBuf (s\<lparr>io := io s @ [IORead f p]\<rparr>) = (r2, s2)"
      by (cases "allocBuf (s\<lparr>io := io s @ [IORead f p]\<rparr>)")
    show ?thesis
    proof (cases r2)
      case (Inl e)
      with readPage_miss_fail [OF None Some] a assms show ?thesis by simp
    next
      case (Inr fr')
      with a have a': "allocBuf (s\<lparr>io := io s @ [IORead f p]\<rparr>) = (Inr fr', s2)" by simp
      from allocBuf_frame_lt [OF a'] allocBuf_length [OF a'] have lt: "fr' < numBufs s2" by simp
      from readPage_miss [OF None Some a'] assms lt None show ?thesis
        by (auto simp: BufDesc_Set_def)
    qed
  qed
qed

section \<open>Facts about flushing\<close>

lemma dirtyPages_cong:
  assumes "\<forall>j \<in> set ks. bufDescTable s1 ! j = bufDescTable s ! j" "bufPool s1 = bufPool s"
  shows "dirtyPages f s1 ks = dirtyPages f s ks"
proof -
  have "filter (\<lambda>j. owningFile (bufDescTable s1 ! j) = Some f \<and> dirty (bufDescTable s1 ! j)) ks =
      filter (\<lambda>j. owningFile (bufDescTable s ! j) = Some f \<and> dirty (bufDescTable s ! j)) ks"
    using assms(1) by (intro filter_cong) simp_all
  then show ?thesis by (simp add: dirtyPages_def assms(2))
qed

lemma dirtyPages_Cons:
  "dirtyPages f s (k # ks) =
     (if owningFile (bufDescTable s ! k) = Some f \<and> dirty (bufDescTable s ! k)
      then bufPool s ! k # dirtyPages f s ks else dirtyPages f s ks)"
  by (simp add: dirtyPages_def)

lemma BufDesc_Clear_dirty [simp]: "BufDesc_Clear (d\<lparr>dirty := b\<rparr>) = BufDesc_Clear d"
  by (simp add: BufDesc_Clear_def)

lemma flushFrame_Inr:
  assumes "k < numBufs s" "pinCnt (bufDescTable s ! k) = 0" "valid (bufDescTable s ! k)"
    "hashTable s (f, pageNo (bufDescTable s ! k)) = Some k"
    "owningFile (bufDescTable s ! k) = Some f"
  shows "flushFrame (Some f) k s =
    (Inr (),
     (if dirty (bufDescTable s ! k) then file_writePage f (bufPool s ! k) s else s)
       \<lparr>hashTable := (hashTable s)((f, pageNo (bufDescTable s ! k)) := None),
        bufDescTable := (bufDescTable s)[k := BufDesc_Clear (bufDescTable s ! k)]\<rparr>)"
  using assms
  by (cases "dirty (bufDescTable s ! k)") (simp_all add: flushFrame_def Let_def ht_remove_def)

lemma flushFrames_append:
  "flushFrames fo (xs @ ys) s =
     (case flushFrames fo xs s of
        (Inl e, s') \<Rightarrow> (Inl e, s')
      | (Inr u, s') \<Rightarrow> flushFrames fo ys s')"
  by (induction xs arbitrary: s) (simp_all split: sum.splits prod.splits)

lemma flushFrames_prefix:
  assumes "distinct ks" "\<forall>j \<in> set ks. j < numBufs s"
    "\<forall>j \<in> set ks. owningFile (bufDescTable s ! j) = Some f \<longrightarrow>
       pinCnt (bufDescTable s ! j) = 0 \<and> valid (bufDescTable s ! j) \<and>
       hashTable s (f, pageNo (bufDescTable s ! j)) = Some j"
  shows "\<exists>s'. flushFrames (Some f) ks s = (Inr (), s') \<and> numBufs s' = numBufs s \<and>
    (\<forall>j < numBufs s. bufDescTable s' ! j =
       (if j \<in> set ks \<and> owningFile (bufDescTable s ! j) = Some f
        then BufDesc_Clear (bufDescTable s ! j) else bufDescTable s ! j)) \<and>
    (\<forall>key. hashTable s' key =
       (if \<exists>j \<in> set ks. owningFile (bufDescTable s ! j) = Some f \<and>
             key = (f, pageNo (bufDescTable s ! j))
        then None else hashTable s key)) \<and>
    io s' = io s @ map (IOWrite f) (dirtyPages f s ks) \<and>
    files s' = foldl (persist f) (files s) (dirtyPages f s ks) \<and>
    bufPool s' = bufPool s \<and> clockHand s' = clockHand s"
  using assms
proof (induction ks arbitrary: s)
  case Nil
  then show ?case by (simp add: dirtyPages_def)
next
  case (Cons k ks)
  let ?t = "bufDescTable s"
  from Cons.prems have k: "k < numBufs s" "k \<notin> set ks" "distinct ks" by simp_all
  show ?case
  proof (cases "owningFile (?t ! k) = Some f")
    case False
    from Cons.IH [of s] Cons.prems k obtain s' where
      s': "flushFrames (Some f) ks s = (Inr (), s')" "numBufs s' = numBufs s"
        "\<forall>j < numBufs s. bufDescTable s' ! j =
           (if j \<in> set ks \<and> owningFile (?t ! j) = Some f then BufDesc_Clear (?t ! j) else ?t ! j)"
        "\<forall>key. hashTable s' key =
           (if \<exists>j \<in> set ks. owningFile (?t ! j) = Some f \<and> key = (f, pageNo (?t ! j))
            then None else hashTable s key)"
        "io s' = io s @ map (IOWrite f) (dirtyPages f s ks)"
        "files s' = foldl (persist f) (files s) (dirtyPages f s ks)"
        "bufPool s' = bufPool s" "clockHand s' = clockHand s"
      by auto
    from False s'(1) have "flushFrames (Some f) (k # ks) s = (Inr (), s')" by simp
    moreover from False s'(3) have "\<forall>j < numBufs s. bufDescTable s' ! j =
         (if j \<in> set (k # ks) \<and> owningFile (?t ! j) = Some f then BufDesc_Clear (?t ! j) else ?t ! j)"
      by auto
    moreover from False s'(4) have "\<forall>key. hashTable s' key =
           (if \<exists>j \<in> set (k # ks). owningFile (?t ! j) = Some f \<and> key = (f, pageNo (?t ! j))
            then None else hashTable s key)"
      by auto
    moreover from False have "dirtyPages f s (k # ks) = dirtyPages f s ks"
      by (simp add: dirtyPages_Cons)
    ultimately show ?thesis using s'(2,5,6,7,8) by auto
  next
    case True
    with Cons.prems(3) have o: "pinCnt (?t ! k) = 0" "valid (?t ! k)"
      "hashTable s (f, pageNo (?t ! k)) = Some k" by simp_all
    define s0 where "s0 = (if dirty (?t ! k) then file_writePage f (bufPool s ! k) s else s)"
    define s1 where "s1 = s0\<lparr>hashTable := (hashTable s)((f, pageNo (?t ! k)) := None),
           bufDescTable := ?t[k := BufDesc_Clear (?t ! k)]\<rparr>"
    have ff: "flushFrame (Some f) k s = (Inr (), s1)"
      unfolding s1_def s0_def using k(1) o True by (rule flushFrame_Inr)
    have s1: "bufDescTable s1 = ?t[k := BufDesc_Clear (?t ! k)]"
      "hashTable s1 = (hashTable s)((f, pageNo (?t ! k)) := None)"
      "bufPool s1 = bufPool s" "clockHand s1 = clockHand s"
      "io s1 = io s @ (if dirty (?t ! k) then [IOWrite f (bufPool s ! k)] else [])"
      "files s1 = (if dirty (?t ! k) then persist f (files s) (bufPool s ! k) else files s)"
      by (simp_all add: s1_def s0_def persist_def)
    have same: "bufDescTable s1 ! j = ?t ! j" if "j \<in> set ks" for j
    proof -
      from that k(2) have "k \<noteq> j" by auto
      then show ?thesis by (simp add: s1(1))
    qed
    have len: "numBufs s1 = numBufs s" by (simp add: s1(1))
    have p3: "\<forall>j \<in> set ks. owningFile (bufDescTable s1 ! j) = Some f \<longrightarrow>
       pinCnt (bufDescTable s1 ! j) = 0 \<and> valid (bufDescTable s1 ! j) \<and>
       hashTable s1 (f, pageNo (bufDescTable s1 ! j)) = Some j"
    proof (intro ballI impI)
      fix j assume j: "j \<in> set ks" "owningFile (bufDescTable s1 ! j) = Some f"
      with same have oj: "owningFile (?t ! j) = Some f" by simp
      with Cons.prems(3) j(1) have h: "pinCnt (?t ! j) = 0" "valid (?t ! j)"
        "hashTable s (f, pageNo (?t ! j)) = Some j" by simp_all
      from j(1) k(2) have "j \<noteq> k" by auto
      with h(3) o(3) have "pageNo (?t ! j) \<noteq> pageNo (?t ! k)" by auto
      with h same [OF j(1)]
      show "pinCnt (bufDescTable s1 ! j) = 0 \<and> valid (bufDescTable s1 ! j) \<and>
       hashTable s1 (f, pageNo (bufDescTable s1 ! j)) = Some j"
        by (simp add: s1(2))
    qed
    from Cons.prems(2) len have p2: "\<forall>j \<in> set ks. j < numBufs s1" by simp
    from Cons.IH [OF k(3) p2 p3] obtain s' where
      s': "flushFrames (Some f) ks s1 = (Inr (), s')" "numBufs s' = numBufs s1"
        "\<forall>j < numBufs s1. bufDescTable s' ! j =
           (if j \<in> set ks \<and> owningFile (bufDescTable s1 ! j) = Some f
            then BufDesc_Clear (bufDescTable s1 ! j) else bufDescTable s1 ! j)"
        "\<forall>key. hashTable s' key =
           (if \<exists>j \<in> set ks. owningFile (bufDescTable s1 ! j) = Some f \<and>
                 key = (f, pageNo (bufDescTable s1 ! j))
            then None else hashTable s1 key)"
        "io s' = io s1 @ map (IOWrite f) (dirtyPages f s1 ks)"
        "files s' = foldl (persist f) (files s1) (dirtyPages f s1 ks)"
        "bufPool s' = bufPool s1" "clockHand s' = clockHand s1"
      by blast
    have dp: "dirtyPages f s1 ks = dirtyPages f s ks"
      by (rule dirtyPages_cong) (simp_all add: same s1(3))
    from True ff s'(1) have 1: "flushFrames (Some f) (k # ks) s = (Inr (), s')" by simp
    have 3: "\<forall>j < numBufs s. bufDescTable s' ! j =
         (if j \<in> set (k # ks) \<and> owningFile (?t ! j) = Some f then BufDesc_Clear (?t ! j) else ?t ! j)"
    proof (intro allI impI)
      fix j assume j: "j < numBufs s"
      show "bufDescTable s' ! j =
         (if j \<in> set (k # ks) \<and> owningFile (?t ! j) = Some f then BufDesc_Clear (?t ! j) else ?t ! j)"
      proof (cases "j = k")
        case jk: True
        with s'(3) len j k(2) have "bufDescTable s' ! j = bufDescTable s1 ! k" by simp
        with jk True k(1) show ?thesis by (simp add: s1(1))
      next
        case False
        then have "bufDescTable s1 ! j = ?t ! j" by (simp add: s1(1))
        with s'(3) len j False show ?thesis by simp
      qed
    qed
    have 4: "\<forall>key. hashTable s' key =
           (if \<exists>j \<in> set (k # ks). owningFile (?t ! j) = Some f \<and> key = (f, pageNo (?t ! j))
            then None else hashTable s key)"
    proof
      fix key
      define A where "A \<longleftrightarrow> (\<exists>j \<in> set ks. owningFile (?t ! j) = Some f \<and> key = (f, pageNo (?t ! j)))"
      have e: "(\<exists>j \<in> set ks. owningFile (bufDescTable s1 ! j) = Some f \<and>
                 key = (f, pageNo (bufDescTable s1 ! j))) = A"
        unfolding A_def using same by (intro bex_cong refl) simp
      from s'(4) have "hashTable s' key =
          (if \<exists>j \<in> set ks. owningFile (bufDescTable s1 ! j) = Some f \<and>
                 key = (f, pageNo (bufDescTable s1 ! j))
           then None else hashTable s1 key)" by (rule spec)
      then have a: "hashTable s' key = (if A then None else hashTable s1 key)"
        by (simp only: e)
      have b: "hashTable s1 key = (if key = (f, pageNo (?t ! k)) then None else hashTable s key)"
        by (simp add: s1(2))
      have c: "(\<exists>j \<in> set (k # ks). owningFile (?t ! j) = Some f \<and> key = (f, pageNo (?t ! j))) =
          (key = (f, pageNo (?t ! k)) \<or> A)"
        unfolding A_def using True by auto
      show "hashTable s' key =
           (if \<exists>j \<in> set (k # ks). owningFile (?t ! j) = Some f \<and> key = (f, pageNo (?t ! j))
            then None else hashTable s key)"
        unfolding c a b by simp
    qed
    have 5: "io s' = io s @ map (IOWrite f) (dirtyPages f s (k # ks))"
      using True by (simp add: s'(5) dp s1(5) dirtyPages_Cons)
    have 6: "files s' = foldl (persist f) (files s) (dirtyPages f s (k # ks))"
      using True by (simp add: s'(6) dp s1(6) dirtyPages_Cons)
    from 1 3 4 5 6 s'(2,7,8) len s1(3,4) show ?thesis by auto
  qed
qed

section \<open>The invariant\<close>

lemma wfTab_invalid:
  "wfTab t ht \<Longrightarrow> i < length t \<Longrightarrow> \<not> valid (t ! i) \<Longrightarrow>
     pinCnt (t ! i) = 0 \<and> \<not> dirty (t ! i) \<and> owningFile (t ! i) = None"
  by (simp add: wfTab_def)

lemma wfTab_entry:
  "wfTab t ht \<Longrightarrow> ht (f, p) = Some i \<Longrightarrow>
     i < length t \<and> valid (t ! i) \<and> owningFile (t ! i) = Some f \<and> pageNo (t ! i) = p"
  unfolding wfTab_def by blast

lemma wfTab_valid:
  "wfTab t ht \<Longrightarrow> i < length t \<Longrightarrow> valid (t ! i) \<Longrightarrow>
     \<exists>f. owningFile (t ! i) = Some f \<and> ht (f, pageNo (t ! i)) = Some i"
  by (simp add: wfTab_def)

lemma wfTab_owned:
  assumes "wfTab t ht" "i < length t" "owningFile (t ! i) = Some f"
  shows "valid (t ! i) \<and> ht (f, pageNo (t ! i)) = Some i"
proof -
  from wfTab_invalid [OF assms(1,2)] assms(3) have v: "valid (t ! i)" by auto
  with wfTab_valid [OF assms(1,2)] assms(3) show ?thesis by auto
qed

lemma wfTab_update:
  assumes "wfTab t ht" "valid d' = valid (t ! fr)" "owningFile d' = owningFile (t ! fr)"
    "pageNo d' = pageNo (t ! fr)" "\<not> valid d' \<longrightarrow> pinCnt d' = 0 \<and> \<not> dirty d'"
  shows "wfTab (t[fr := d']) ht"
proof (cases "fr < length t")
  case False
  with assms(1) show ?thesis by (simp add: list_update_beyond)
next
  case True
  let ?t = "t[fr := d']"
  have nth: "?t ! i = (if i = fr then d' else t ! i)" if "i < length t" for i
    using that by (simp add: nth_list_update)
  have 1: "pinCnt (?t ! i) = 0 \<and> \<not> dirty (?t ! i) \<and> owningFile (?t ! i) = None"
    if "i < length ?t" "\<not> valid (?t ! i)" for i
    using that wfTab_invalid [OF assms(1), of i] assms(2,3,5)
    by (auto simp: nth split: if_splits)
  have 2: "i < length ?t \<and> valid (?t ! i) \<and> owningFile (?t ! i) = Some f \<and> pageNo (?t ! i) = p"
    if "ht (f, p) = Some i" for f p i
    using wfTab_entry [OF assms(1) that] assms(2,3,4)
    by (auto simp: nth split: if_splits)
  have 3: "\<exists>f. owningFile (?t ! i) = Some f \<and> ht (f, pageNo (?t ! i)) = Some i"
    if "i < length ?t" "valid (?t ! i)" for i
    using that wfTab_valid [OF assms(1), of i] assms(2,3,4)
    by (auto simp: nth split: if_splits)
  show ?thesis unfolding wfTab_def using 1 2 3 by blast
qed

lemma wfTab_unmap:
  assumes "wfTab t ht" "fr < length t" "owningFile (t ! fr) = Some f"
  shows "wfTab (t[fr := BufDesc_Clear d0]) (ht((f, pageNo (t ! fr)) := None))"
proof -
  let ?t = "t[fr := BufDesc_Clear d0]"
  let ?ht = "ht((f, pageNo (t ! fr)) := None)"
  have nth: "?t ! i = (if i = fr then BufDesc_Clear d0 else t ! i)" if "i < length t" for i
    using that by (simp add: nth_list_update)
  have clr: "\<not> valid (BufDesc_Clear d0)" "pinCnt (BufDesc_Clear d0) = 0"
    "\<not> dirty (BufDesc_Clear d0)" "owningFile (BufDesc_Clear d0) = None"
    by (simp_all add: BufDesc_Clear_def)
  from wfTab_owned [OF assms] have own: "valid (t ! fr)" "ht (f, pageNo (t ! fr)) = Some fr"
    by simp_all
  have 1: "pinCnt (?t ! i) = 0 \<and> \<not> dirty (?t ! i) \<and> owningFile (?t ! i) = None"
    if "i < length ?t" "\<not> valid (?t ! i)" for i
    using that wfTab_invalid [OF assms(1), of i] nth [of i] clr
    by (auto split: if_splits)
  have 2: "i < length ?t \<and> valid (?t ! i) \<and> owningFile (?t ! i) = Some g \<and> pageNo (?t ! i) = p"
    if e: "?ht (g, p) = Some i" for g p i
  proof -
    from e have ne: "(g, p) \<noteq> (f, pageNo (t ! fr))" and e': "ht (g, p) = Some i"
      by (auto split: if_splits)
    from wfTab_entry [OF assms(1) e']
    have i: "i < length t" "valid (t ! i)" "owningFile (t ! i) = Some g" "pageNo (t ! i) = p"
      by simp_all
    with ne assms(3) have "i \<noteq> fr" by auto
    with i nth [of i] show ?thesis by simp
  qed
  have 3: "\<exists>g. owningFile (?t ! i) = Some g \<and> ?ht (g, pageNo (?t ! i)) = Some i"
    if i: "i < length ?t" "valid (?t ! i)" for i
  proof -
    from i have il: "i < length t" by simp
    from i nth [OF il] clr have ne: "i \<noteq> fr" by (auto split: if_splits)
    with i nth [OF il] have v: "valid (t ! i)" by simp
    from wfTab_valid [OF assms(1) il v] obtain g
      where g: "owningFile (t ! i) = Some g" "ht (g, pageNo (t ! i)) = Some i" by blast
    from g(2) own(2) ne have "(g, pageNo (t ! i)) \<noteq> (f, pageNo (t ! fr))" by auto
    with g ne nth [OF il] show ?thesis by auto
  qed
  show ?thesis unfolding wfTab_def using 1 2 3 by blast
qed

lemma wfTab_map:
  assumes "wfTab t ht" "fr < length t" "\<not> valid (t ! fr)" "ht (f, p) = None"
  shows "wfTab (t[fr := BufDesc_Set f p d0]) (ht((f, p) \<mapsto> fr))"
proof -
  let ?t = "t[fr := BufDesc_Set f p d0]"
  let ?ht = "ht((f, p) \<mapsto> fr)"
  have nth: "?t ! i = (if i = fr then BufDesc_Set f p d0 else t ! i)" if "i < length t" for i
    using that by (simp add: nth_list_update)
  have st: "valid (BufDesc_Set f p d0)" "owningFile (BufDesc_Set f p d0) = Some f"
    "pageNo (BufDesc_Set f p d0) = p"
    by (simp_all add: BufDesc_Set_def)
  have 1: "pinCnt (?t ! i) = 0 \<and> \<not> dirty (?t ! i) \<and> owningFile (?t ! i) = None"
    if "i < length ?t" "\<not> valid (?t ! i)" for i
    using that wfTab_invalid [OF assms(1), of i] nth [of i] st
    by (auto split: if_splits)
  have 2: "i < length ?t \<and> valid (?t ! i) \<and> owningFile (?t ! i) = Some g \<and> pageNo (?t ! i) = q"
    if e: "?ht (g, q) = Some i" for g q i
  proof (cases "(g, q) = (f, p)")
    case True
    with e have "i = fr" by simp
    with True assms(2) nth [of fr] st show ?thesis by simp
  next
    case False
    with e have e': "ht (g, q) = Some i" by (auto split: if_splits)
    from wfTab_entry [OF assms(1) e']
    have i: "i < length t" "valid (t ! i)" "owningFile (t ! i) = Some g" "pageNo (t ! i) = q"
      by simp_all
    with assms(3) have "i \<noteq> fr" by auto
    with i nth [of i] show ?thesis by simp
  qed
  have 3: "\<exists>g. owningFile (?t ! i) = Some g \<and> ?ht (g, pageNo (?t ! i)) = Some i"
    if i: "i < length ?t" "valid (?t ! i)" for i
  proof (cases "i = fr")
    case True
    with i nth [of i] st show ?thesis by simp
  next
    case False
    from i have il: "i < length t" by simp
    with False i nth [OF il] have v: "valid (t ! i)" by simp
    from wfTab_valid [OF assms(1) il v] obtain g
      where g: "owningFile (t ! i) = Some g" "ht (g, pageNo (t ! i)) = Some i" by blast
    from g(2) assms(4) have "(g, pageNo (t ! i)) \<noteq> (f, p)" by auto
    with g False nth [OF il] show ?thesis by auto
  qed
  show ?thesis unfolding wfTab_def using 1 2 3 by blast
qed

lemma wf_state_cong:
  "bufDescTable s' = bufDescTable s \<Longrightarrow> hashTable s' = hashTable s \<Longrightarrow>
     wf_state s' = wf_state s"
  by (simp add: wf_state_def)

lemma wf_state_simps [simp]:
  "wf_state (advanceClock s) = wf_state s"
  "wf_state (file_writePage f pg s) = wf_state s"
  "wf_state (storePage fr pg s) = wf_state s"
  "wf_state (file_deletePage f p s) = wf_state s"
  "wf_state (snd (file_allocatePage f pg s)) = wf_state s"
  "wf_state (snd (file_readPage f p s)) = wf_state s"
  "wf_state (s\<lparr>io := l\<rparr>) = wf_state s"
  by (simp_all add: wf_state_def file_deletePage_def file_allocatePage_def file_readPage_def
      Let_def split: option.splits)

lemma wf_clearRef: "wf_state s \<Longrightarrow> wf_state (clearRef h s)"
proof (cases "h < numBufs s")
  case True
  assume w: "wf_state s"
  from w True have "\<not> valid (bufDescTable s ! h) \<longrightarrow>
      pinCnt (bufDescTable s ! h) = 0 \<and> \<not> dirty (bufDescTable s ! h)"
    by (auto simp: wf_state_def dest: wfTab_invalid)
  with w show ?thesis
    unfolding wf_state_def clearRef_def by (simp add: wfTab_update)
next
  case False
  assume "wf_state s"
  with False show ?thesis by (simp add: wf_state_def clearRef_def list_update_beyond)
qed

lemma wf_setRef: "wf_state s \<Longrightarrow> wf_state (setRef h s)"
proof (cases "h < numBufs s")
  case True
  assume w: "wf_state s"
  from w True have "\<not> valid (bufDescTable s ! h) \<longrightarrow>
      pinCnt (bufDescTable s ! h) = 0 \<and> \<not> dirty (bufDescTable s ! h)"
    by (auto simp: wf_state_def dest: wfTab_invalid)
  with w show ?thesis
    unfolding wf_state_def setRef_def by (simp add: wfTab_update)
next
  case False
  assume "wf_state s"
  with False show ?thesis by (simp add: wf_state_def setRef_def list_update_beyond)
qed

lemma wf_pin: "wf_state s \<Longrightarrow> valid (bufDescTable s ! fr) \<Longrightarrow> wf_state (pin fr s)"
  unfolding wf_state_def pin_def by (simp add: wfTab_update)

lemma evict_wf:
  assumes "wf_state s" "h < numBufs s" "valid (bufDescTable s ! h)"
  shows "\<exists>s'. evict h s = (Inr h, s') \<and> wf_state s' \<and> \<not> valid (bufDescTable s' ! h)"
proof -
  let ?d = "bufDescTable s ! h"
  from assms obtain f where f: "owningFile ?d = Some f" "hashTable s (f, pageNo ?d) = Some h"
    unfolding wf_state_def by (blast dest: wfTab_valid)
  define s1 where "s1 = (if dirty ?d then file_writePage f (bufPool s ! h) s else s)"
  have wb: "writeBack h s = Inr s1" using f(1) by (simp add: writeBack_def s1_def)
  have s1: "bufDescTable s1 = bufDescTable s" "hashTable s1 = hashTable s"
    by (simp_all add: s1_def)
  have rc: "removeAndClear h s1 =
      s1\<lparr>hashTable := (hashTable s)((f, pageNo ?d) := None),
         bufDescTable := (bufDescTable s)[h := BufDesc_Clear ?d]\<rparr>"
    using f by (simp add: removeAndClear_def s1 ht_remove_def Let_def)
  from assms(1,2) f(1) have "wfTab ((bufDescTable s)[h := BufDesc_Clear ?d])
      ((hashTable s)((f, pageNo ?d) := None))"
    unfolding wf_state_def by (rule wfTab_unmap)
  then have "wf_state (removeAndClear h s1)" by (simp add: rc wf_state_def)
  moreover have "\<not> valid (bufDescTable (removeAndClear h s1) ! h)"
    using assms(2) by (simp add: rc BufDesc_Clear_def)
  moreover have "evict h s = (Inr h, removeAndClear h s1)" by (simp add: evict_def wb)
  ultimately show ?thesis by blast
qed

lemma sweep_wf:
  "wf_state s \<Longrightarrow> 0 < numBufs s \<Longrightarrow> sweep k s = (r, s') \<Longrightarrow>
     wf_state s' \<and>
     (r = Inr None \<or> (\<exists>v. r = Inr (Some v) \<and> v < numBufs s \<and> \<not> valid (bufDescTable s' ! v)))"
proof (induction k arbitrary: s)
  case 0
  then show ?case by simp
next
  case (Suc k)
  let ?h = "clockHand (advanceClock s)"
  from Suc.prems(2) have h: "?h < numBufs s" by simp
  from Suc.prems(3) show ?case
  proof (cases rule: sweep_Suc_cases)
    case invalid
    with Suc.prems(1) h show ?thesis by simp
  next
    case second_chance
    from Suc.prems(1) have "wf_state (clearRef ?h (advanceClock s))" by (simp add: wf_clearRef)
    from Suc.IH [OF this _ second_chance(3)] Suc.prems(2) show ?thesis by simp
  next
    case pinned
    from Suc.prems(1) have "wf_state (advanceClock s)" by simp
    from Suc.IH [OF this _ pinned(4)] Suc.prems(2) show ?thesis by simp
  next
    case (evict r')
    from Suc.prems(1) have "wf_state (advanceClock s)" by simp
    from evict_wf [OF this, of ?h] h evict(1,4,5) show ?thesis by auto
  qed
qed

lemma allocBuf_wf:
  "wf_state s \<Longrightarrow> allocBuf s = (r, s') \<Longrightarrow>
     wf_state s' \<and>
     (r = Inl BufferExceeded \<or> (\<exists>v. r = Inr v \<and> v < numBufs s' \<and> \<not> valid (bufDescTable s' ! v)))"
proof (induction s rule: allocBuf.induct)
  case (1 s)
  show ?case
  proof (cases "numBufs s = 0")
    case True
    then have "sweep (numBufs s) s = (Inr None, s)" by simp
    moreover from True have "\<not> someUnpinned s" by (simp add: someUnpinned_def)
    ultimately have "allocBuf s = (Inl BufferExceeded, s)" by (simp add: allocBuf.simps)
    with "1.prems" show ?thesis by simp
  next
    case False
    then have N: "0 < numBufs s" by simp
    from "1.prems"(2) show ?thesis
    proof (cases rule: allocBuf_cases)
      case (fault e)
      from sweep_wf [OF "1.prems"(1) N fault(1)] show ?thesis by simp
    next
      case (found fr)
      from sweep_wf [OF "1.prems"(1) N found(1)] found(2) sweep_length [OF found(1)]
      show ?thesis by simp
    next
      case (again s1)
      from sweep_wf [OF "1.prems"(1) N again(1)] have "wf_state s1" by simp
      from "1.IH" [OF again(1) [symmetric] refl refl again(2) this again(3)] show ?thesis .
    next
      case full
      from sweep_wf [OF "1.prems"(1) N full(1)] full(3) show ?thesis by simp
    qed
  qed
qed

lemma BufMgr_new_wf: "wf_state (BufMgr_new n fs)"
  by (simp add: wf_state_def wfTab_def BufMgr_new_def BufDesc_new_def)

lemma readPage_wf:
  assumes "wf_state s"
  shows "wf_state (snd (readPage s f p))"
proof (cases "hashTable s (f, p)")
  case (Some fr)
  from assms Some have e: "fr < numBufs s" "valid (bufDescTable s ! fr)"
    unfolding wf_state_def by (auto dest: wfTab_entry)
  from assms e(2) show ?thesis
    unfolding readPage_hit [OF Some e(1)] wf_state_def by (simp add: wfTab_update)
next
  case None
  let ?s1 = "s\<lparr>io := io s @ [IORead f p]\<rparr>"
  show ?thesis
  proof (cases "files s f p")
    case n: None
    with None assms show ?thesis by (simp add: readPage_def ht_lookup_def file_readPage_def)
  next
    case (Some pg)
    obtain r2 s2 where a: "allocBuf ?s1 = (r2, s2)" by (cases "allocBuf ?s1")
    from assms have "wf_state ?s1" by simp
    note w = allocBuf_wf [OF this a]
    show ?thesis
    proof (cases r2)
      case (Inl e)
      with readPage_miss_fail [OF None Some] a w show ?thesis by simp
    next
      case (Inr v)
      with w have v: "v < numBufs s2" "\<not> valid (bufDescTable s2 ! v)" by simp_all
      from None have "hashTable ?s1 (f, p) = None" by simp
      with a have n: "hashTable s2 (f, p) = None" by (rule allocBuf_ht_None)
      from w have "wfTab (bufDescTable s2) (hashTable s2)" by (simp add: wf_state_def)
      from wfTab_map [OF this v n] readPage_miss [OF None Some a [unfolded Inr]]
      show ?thesis by (simp add: wf_state_def)
    qed
  qed
qed

lemma unPinPage_wf:
  assumes "wf_state s"
  shows "wf_state (snd (unPinPage s f p b))"
proof (cases "hashTable s (f, p)")
  case None
  with assms show ?thesis by (simp add: unPinPage_def ht_lookup_def)
next
  case (Some fr)
  from assms Some have e: "fr < numBufs s" "valid (bufDescTable s ! fr)"
    unfolding wf_state_def by (auto dest: wfTab_entry)
  from assms have w: "wfTab (bufDescTable s) (hashTable s)" by (simp add: wf_state_def)
  show ?thesis
  proof (cases "pinCnt (bufDescTable s ! fr) = 0")
    case True
    with Some e assms show ?thesis by (simp add: unPinPage_def ht_lookup_def)
  next
    case False
    with Some e w show ?thesis
      by (cases b) (simp_all add: unPinPage_def ht_lookup_def Let_def wf_state_def wfTab_update)
  qed
qed

lemma disposePage_wf:
  assumes "wf_state s"
  shows "wf_state (snd (disposePage s f p))"
proof (cases "hashTable s (f, p)")
  case None
  with assms show ?thesis by (simp add: disposePage_def ht_lookup_def)
next
  case (Some fr)
  from assms have w: "wfTab (bufDescTable s) (hashTable s)" by (simp add: wf_state_def)
  from wfTab_entry [OF w Some]
  have e: "fr < numBufs s" "owningFile (bufDescTable s ! fr) = Some f"
    "pageNo (bufDescTable s ! fr) = p" by simp_all
  from wfTab_unmap [OF w e(1,2), of "bufDescTable s ! fr"] e(3) Some e(1)
  show ?thesis
    by (simp add: disposePage_def ht_lookup_def Let_def ht_remove_def wf_state_def
        file_deletePage_def)
qed

lemma flushFrame_wf:
  assumes "wf_state s" "k < numBufs s" "owningFile (bufDescTable s ! k) = fo"
  shows "(\<exists>s'. flushFrame fo k s = (Inr (), s') \<and> wf_state s' \<and> numBufs s' = numBufs s) \<or>
    (\<exists>f. fo = Some f \<and>
       flushFrame fo k s = (Inl (PagePinned f (pageNo (bufDescTable s ! k)) k), s)) \<or>
    (\<exists>a b c. fo = None \<and> flushFrame fo k s = (Inl (BadBuffer k a b c), s))"
proof (cases fo)
  case None
  let ?d = "bufDescTable s ! k"
  from assms have w: "wfTab (bufDescTable s) (hashTable s)" by (simp add: wf_state_def)
  have nv: "\<not> valid ?d"
  proof
    assume "valid ?d"
    from wfTab_valid [OF w assms(2) this] assms(3) None show False by auto
  qed
  with wfTab_invalid [OF w assms(2)] have "pinCnt ?d = 0" by simp
  with nv None show ?thesis by (auto simp: flushFrame_def Let_def)
next
  case (Some f)
  show ?thesis
  proof (cases "0 < pinCnt (bufDescTable s ! k)")
    case True
    with Some show ?thesis by (simp add: flushFrame_def)
  next
    case False
    let ?d = "bufDescTable s ! k"
    from assms have w: "wfTab (bufDescTable s) (hashTable s)" by (simp add: wf_state_def)
    from assms(3) Some have own: "owningFile ?d = Some f" by simp
    from wfTab_owned [OF w assms(2) own]
    have o: "valid ?d" "hashTable s (f, pageNo ?d) = Some k" by simp_all
    from wfTab_unmap [OF w assms(2) own]
    have u: "wfTab ((bufDescTable s)[k := BufDesc_Clear d0]) ((hashTable s)((f, pageNo ?d) := None))"
      for d0 .
    from False have "pinCnt ?d = 0" by simp
    from flushFrame_Inr [OF assms(2) this o own] u Some show ?thesis
      by (cases "dirty ?d") (simp_all add: wf_state_def)
  qed
qed

lemma flushFrames_wf:
  "wf_state s \<Longrightarrow> \<forall>k \<in> set ks. k < numBufs s \<Longrightarrow> flushFrames fo ks s = (r, s') \<Longrightarrow>
     wf_state s' \<and>
     (r = Inr () \<or> (\<exists>f p k. fo = Some f \<and> r = Inl (PagePinned f p k)) \<or>
      (\<exists>k a b c. fo = None \<and> r = Inl (BadBuffer k a b c)))"
proof (induction ks arbitrary: s)
  case Nil
  then show ?case by simp
next
  case (Cons k ks)
  show ?case
  proof (cases "owningFile (bufDescTable s ! k) = fo")
    case False
    with Cons.prems(3) have "flushFrames fo ks s = (r, s')" by simp
    from Cons.IH [OF Cons.prems(1) _ this] Cons.prems(2) show ?thesis by simp
  next
    case True
    from Cons.prems(2) have k: "k < numBufs s" by simp
    from flushFrame_wf [OF Cons.prems(1) k True]
    consider s1 where "flushFrame fo k s = (Inr (), s1)" "wf_state s1" "numBufs s1 = numBufs s"
      | e where "flushFrame fo k s = (Inl e, s)"
          "(\<exists>f p k. fo = Some f \<and> e = PagePinned f p k) \<or> (\<exists>k a b c. fo = None \<and> e = BadBuffer k a b c)"
      by blast
    then show ?thesis
    proof cases
      case 1
      with True Cons.prems(3) have "flushFrames fo ks s1 = (r, s')" by simp
      from Cons.IH [OF 1(2) _ this] Cons.prems(2) 1(3) show ?thesis by simp
    next
      case 2
      with True Cons.prems(1,3) show ?thesis by auto
    qed
  qed
qed

lemma flushFile_wf:
  assumes "wf_state s"
  shows "wf_state (snd (flushFile s fo))"
    "fst (flushFile s fo) = Inr () \<or>
     (\<exists>f p k. fo = Some f \<and> fst (flushFile s fo) = Inl (PagePinned f p k)) \<or>
     (\<exists>k a b c. fo = None \<and> fst (flushFile s fo) = Inl (BadBuffer k a b c))"
proof -
  obtain r s' where fl: "flushFrames fo [0..<numBufs s] s = (r, s')"
    by (cases "flushFrames fo [0..<numBufs s] s")
  from flushFrames_wf [OF assms _ fl] fl
  show "wf_state (snd (flushFile s fo))"
    "fst (flushFile s fo) = Inr () \<or>
     (\<exists>f p k. fo = Some f \<and> fst (flushFile s fo) = Inl (PagePinned f p k)) \<or>
     (\<exists>k a b c. fo = None \<and> fst (flushFile s fo) = Inl (BadBuffer k a b c))"
    by (simp_all add: flushFile_def)
qed




lemma allocPage_wf:
  assumes "wf_state s"
  shows "wf_state (snd (allocPage s f fresh))"
proof -
  let ?s1 = "s\<lparr>files := (files s)(f := (files s f)(page_number fresh \<mapsto> fresh)),
        io := io s @ [IOAllocate f (page_number fresh)]\<rparr>"
  obtain r2 s2 where a: "allocBuf ?s1 = (r2, s2)" by (cases "allocBuf ?s1")
  from assms have "wf_state ?s1" by (simp add: wf_state_def)
  note w = allocBuf_wf [OF this a]
  show ?thesis
  proof (cases r2)
    case (Inl e)
    with a w show ?thesis by (simp add: allocPage_def file_allocatePage_def)
  next
    case (Inr v)
    with w have v: "v < numBufs s2" "\<not> valid (bufDescTable s2 ! v)" by simp_all
    from w have w2: "wfTab (bufDescTable s2) (hashTable s2)" by (simp add: wf_state_def)
    let ?s3 = "s2\<lparr>io := io s2 @ [IORead f (page_number fresh)]\<rparr>"
    show ?thesis
    proof (cases "files s2 f (page_number fresh)")
      case None
      with a Inr w show ?thesis
        by (simp add: allocPage_def file_allocatePage_def file_readPage_def Let_def)
    next
      case (Some pg')
      show ?thesis
      proof (cases "hashTable s2 (f, page_number fresh)")
        case n: None
        from wfTab_map [OF w2 v n] a Inr Some n show ?thesis
          by (simp add: allocPage_def file_allocatePage_def file_readPage_def Let_def
              insertAndSet_None wf_state_def)
      next
        case s: (Some fr')
        with a Inr Some w2 show ?thesis
          by (simp add: allocPage_def file_allocatePage_def file_readPage_def Let_def
              insertAndSet_def ht_insert_def wf_state_def)
      qed
    qed
  qed
qed

lemma perform_wf: "wf_state s \<Longrightarrow> wf_state (perform rq s)"
  by (cases rq)
     (simp_all add: perform_def readPage_wf unPinPage_wf allocPage_wf disposePage_wf flushFile_wf)

lemma run_wf: "wf_state s \<Longrightarrow> wf_state (run rqs s)"
  by (induction rqs arbitrary: s) (simp_all add: perform_wf)

lemma wf_invalidClean: "wf_state s \<Longrightarrow> invalidClean s"
  unfolding wf_state_def invalidClean_def list_all_length
  by (blast dest: wfTab_invalid)

lemmas bufmgr_exec =
  perform_def readPage_def unPinPage_def allocPage_def disposePage_def flushFile_def
  flushFrame_def ht_lookup_def ht_insert_def ht_remove_def file_readPage_def
  file_writePage_def file_allocatePage_def file_deletePage_def allocBuf.simps
  advanceClock_def clearRef_def evict_def writeBack_def removeAndClear_def someUnpinned_def
  storePage_def insertAndSet_def pin_def setRef_def BufDesc_Set_def BufDesc_Clear_def
  BufMgr_new_def BufDesc_new_def Page_new_def demo_files_def Let_def

section \<open>Facts about pinned frames\<close>

lemma keepsFrame_refl [simp]: "keepsFrame i s s"
  by (simp add: keepsFrame_def)

lemma keepsFrame_trans: "keepsFrame i s s1 \<Longrightarrow> keepsFrame i s1 s2 \<Longrightarrow> keepsFrame i s s2"
  by (simp add: keepsFrame_def)

lemma keepsFrame_eq:
  "bufDescTable s' ! i = bufDescTable s ! i \<Longrightarrow> bufPool s' = bufPool s \<Longrightarrow> keepsFrame i s s'"
  by (simp add: keepsFrame_def)

lemma evict_other:
  assumes "evict h s = (r, s')"
  shows "bufPool s' = bufPool s" "i \<noteq> h \<Longrightarrow> bufDescTable s' ! i = bufDescTable s ! i"
proof -
  from assms obtain s1 where s1: "writeBack h s = Inr s1 \<and> s' = removeAndClear h s1 \<or> s' = s"
    by (auto simp: evict_def split: sum.splits)
  have wb: "bufPool s1 = bufPool s \<and> bufDescTable s1 = bufDescTable s"
    if "writeBack h s = Inr s1" for s1
    using that by (auto simp: writeBack_def Let_def split: if_splits option.splits)
  have rc: "bufPool (removeAndClear h t) = bufPool t \<and>
      (i \<noteq> h \<longrightarrow> bufDescTable (removeAndClear h t) ! i = bufDescTable t ! i)" for t
    by (simp add: removeAndClear_def Let_def split: option.splits)
  from s1 wb rc show "bufPool s' = bufPool s" by auto
  from s1 wb rc show "i \<noteq> h \<Longrightarrow> bufDescTable s' ! i = bufDescTable s ! i" by auto
qed

lemma sweep_keeps_pinned:
  "sweep k s = (r, s') \<Longrightarrow> wf_state s \<Longrightarrow> 0 < numBufs s \<Longrightarrow> i < numBufs s \<Longrightarrow>
   0 < pinCnt (bufDescTable s ! i) \<Longrightarrow>
     (bufDescTable s' ! i)\<lparr>refbit := False\<rparr> = (bufDescTable s ! i)\<lparr>refbit := False\<rparr> \<and>
     bufPool s' = bufPool s \<and> r \<noteq> Inr (Some i)"
proof (induction k arbitrary: s)
  case 0
  then show ?case by auto
next
  case (Suc k)
  let ?s1 = "advanceClock s"
  let ?h = "clockHand ?s1"
  from Suc.prems(3) have h: "?h < numBufs s" by simp
  from Suc.prems(1) show ?case
  proof (cases rule: sweep_Suc_cases)
    case invalid
    from Suc.prems(2) h invalid(1) have "pinCnt (bufDescTable s ! ?h) = 0"
      unfolding wf_state_def by (blast dest: wfTab_invalid)
    with Suc.prems(5) have "?h \<noteq> i" by auto
    with invalid show ?thesis by auto
  next
    case second_chance
    let ?t = "clearRef ?h ?s1"
    have w: "wf_state ?t" using Suc.prems(2) by (simp add: wf_clearRef)
    have p: "0 < pinCnt (bufDescTable ?t ! i)"
      using Suc.prems(4,5) by (auto simp: clearRef_nth)
    from Suc.IH [OF second_chance(3) w _ _ p] Suc.prems(3,4)
    have "(bufDescTable s' ! i)\<lparr>refbit := False\<rparr> = (bufDescTable ?t ! i)\<lparr>refbit := False\<rparr> \<and>
     bufPool s' = bufPool ?t \<and> r \<noteq> Inr (Some i)" by simp
    with Suc.prems(4) show ?thesis by (simp add: clearRef_nth split: if_splits)
  next
    case pinned
    have w: "wf_state ?s1" using Suc.prems(2) by simp
    from Suc.IH [OF pinned(4) w] Suc.prems(3,4,5) show ?thesis by simp
  next
    case (evict r')
    from evict(3) Suc.prems(5) have ne: "i \<noteq> ?h" by auto
    from evict_other [OF evict(4)] ne
    have "bufPool s' = bufPool s" "bufDescTable s' ! i = bufDescTable s ! i" by simp_all
    moreover have "r \<noteq> Inr (Some i)"
    proof
      assume "r = Inr (Some i)"
      with evict(5) have "r' = Inr i" by (cases r') auto
      with evict(4) ne show False by (auto dest: evict_frame)
    qed
    ultimately show ?thesis by simp
  qed
qed

lemma allocBuf_keeps_pinned:
  "allocBuf s = (r, s') \<Longrightarrow> wf_state s \<Longrightarrow> i < numBufs s \<Longrightarrow>
   0 < pinCnt (bufDescTable s ! i) \<Longrightarrow>
     (bufDescTable s' ! i)\<lparr>refbit := False\<rparr> = (bufDescTable s ! i)\<lparr>refbit := False\<rparr> \<and>
     bufPool s' = bufPool s \<and> r \<noteq> Inr i"
proof (induction s rule: allocBuf.induct)
  case (1 s)
  from "1.prems"(3) have N: "0 < numBufs s" by (rule le_less_trans [OF le0])
  note sk = sweep_keeps_pinned [OF _ "1.prems"(2) N "1.prems"(3,4)]
  from "1.prems"(1) show ?case
  proof (cases rule: allocBuf_cases)
    case (fault e)
    from sk [OF fault(1)] fault(2) show ?thesis by simp
  next
    case (found fr)
    from sk [OF found(1)] found(2) show ?thesis by auto
  next
    case (again s1)
    note k1 = sk [OF again(1)]
    from sweep_wf [OF "1.prems"(2) N again(1)] have w1: "wf_state s1" by simp
    from sweep_length [OF again(1)] "1.prems"(3) have i1: "i < numBufs s1" by simp
    from k1 have "pinCnt (bufDescTable s1 ! i) = pinCnt (bufDescTable s ! i)"
      by (intro same_upto_refbit_fields) simp
    with "1.prems"(4) have p1: "0 < pinCnt (bufDescTable s1 ! i)" by simp
    from "1.IH" [OF again(1) [symmetric] refl refl again(2) again(3) w1 i1 p1] k1
    show ?thesis by simp
  next
    case full
    from sk [OF full(1)] full(3) show ?thesis by simp
  qed
qed

lemma keepsFrame_upto:
  assumes "(bufDescTable s' ! i)\<lparr>refbit := False\<rparr> = (bufDescTable s ! i)\<lparr>refbit := False\<rparr>"
    "bufPool s' = bufPool s"
  shows "keepsFrame i s s'"
  unfolding keepsFrame_def
  using same_upto_refbit_fields(2,4,5) [OF assms(1)] assms(2) by simp

lemma readPage_keeps:
  assumes "wf_state s" "i < numBufs s" "0 < pinCnt (bufDescTable s ! i)"
  shows "keepsFrame i s (snd (readPage s f p))"
proof (cases "hashTable s (f, p)")
  case (Some fr)
  show ?thesis
  proof (cases "fr < numBufs s")
    case True
    from assms(2) True show ?thesis
      unfolding readPage_hit [OF Some True] keepsFrame_def
      by (cases "i = fr") simp_all
  next
    case False
    with Some show ?thesis by (simp add: readPage_def ht_lookup_def)
  qed
next
  case None
  let ?s1 = "s\<lparr>io := io s @ [IORead f p]\<rparr>"
  show ?thesis
  proof (cases "files s f p")
    case n: None
    with None show ?thesis
      by (simp add: readPage_def ht_lookup_def file_readPage_def keepsFrame_def)
  next
    case (Some pg)
    obtain r2 s2 where a: "allocBuf ?s1 = (r2, s2)" by (cases "allocBuf ?s1")
    from assms have "wf_state ?s1" "i < numBufs ?s1" "0 < pinCnt (bufDescTable ?s1 ! i)"
      by simp_all
    note k = allocBuf_keeps_pinned [OF a this]
    then have k2: "keepsFrame i ?s1 s2" by (intro keepsFrame_upto) simp_all
    have k1: "keepsFrame i s ?s1" by (simp add: keepsFrame_def)
    show ?thesis
    proof (cases r2)
      case (Inl e)
      with readPage_miss_fail [OF None Some] a have "snd (readPage s f p) = s2" by simp
      with k1 k2 show ?thesis by (auto intro: keepsFrame_trans)
    next
      case (Inr v)
      with k have ne: "v \<noteq> i" by auto
      from readPage_miss [OF None Some a [unfolded Inr]] ne
      have "keepsFrame i s2 (snd (readPage s f p))" by (simp add: keepsFrame_def)
      with k1 k2 show ?thesis by (blast intro: keepsFrame_trans)
    qed
  qed
qed

lemma unPinPage_keeps: "keepsFrame i s (snd (unPinPage s f p b))"
proof (cases "hashTable s (f, p)")
  case None
  then show ?thesis by (simp add: unPinPage_def ht_lookup_def)
next
  case (Some fr)
  show ?thesis
  proof (cases "fr < numBufs s \<and> 0 < pinCnt (bufDescTable s ! fr)")
    case False
    with Some show ?thesis by (auto simp: unPinPage_def ht_lookup_def)
  next
    case True
    with Some show ?thesis
      by (cases "i = fr"; cases b)
         (simp_all add: unPinPage_def ht_lookup_def Let_def keepsFrame_def)
  qed
qed

lemma disposePage_keeps:
  assumes "wf_state s" "i < numBufs s"
    "owningFile (bufDescTable s ! i) \<noteq> Some f \<or> pageNo (bufDescTable s ! i) \<noteq> p"
  shows "keepsFrame i s (snd (disposePage s f p))"
proof (cases "hashTable s (f, p)")
  case None
  then show ?thesis by (simp add: disposePage_def ht_lookup_def file_deletePage_def keepsFrame_def)
next
  case (Some fr)
  from assms(1) have w: "wfTab (bufDescTable s) (hashTable s)" by (simp add: wf_state_def)
  from wfTab_entry [OF w Some]
  have e: "fr < numBufs s" "owningFile (bufDescTable s ! fr) = Some f"
    "pageNo (bufDescTable s ! fr) = p" by simp_all
  with assms(3) have "fr \<noteq> i" by auto
  with Some e(1) show ?thesis
    by (simp add: disposePage_def ht_lookup_def Let_def ht_remove_def file_deletePage_def
        keepsFrame_def)
qed

lemma flushFrame_keeps:
  assumes "flushFrame fo k s = (r, s1)" "0 < pinCnt (bufDescTable s ! i)"
  shows "bufDescTable s1 ! i = bufDescTable s ! i \<and> bufPool s1 = bufPool s"
proof (cases "0 < pinCnt (bufDescTable s ! k)")
  case True
  with assms(1) show ?thesis by (auto simp: flushFrame_def split: option.splits)
next
  case False
  with assms(2) have "k \<noteq> i" by auto
  with assms(1) False show ?thesis
    by (auto simp: flushFrame_def Let_def ht_remove_def
        split: if_splits option.splits sum.splits)
qed

lemma flushFrames_keeps:
  "flushFrames fo ks s = (r, s') \<Longrightarrow> 0 < pinCnt (bufDescTable s ! i) \<Longrightarrow>
     bufDescTable s' ! i = bufDescTable s ! i \<and> bufPool s' = bufPool s"
proof (induction ks arbitrary: s)
  case Nil
  then show ?case by simp
next
  case (Cons k ks)
  show ?case
  proof (cases "owningFile (bufDescTable s ! k) = fo")
    case False
    with Cons.prems(1) have "flushFrames fo ks s = (r, s')" by simp
    from Cons.IH [OF this Cons.prems(2)] show ?thesis .
  next
    case True
    obtain r1 s1 where ff: "flushFrame fo k s = (r1, s1)" by (cases "flushFrame fo k s")
    note k1 = flushFrame_keeps [OF ff Cons.prems(2)]
    show ?thesis
    proof (cases r1)
      case (Inl e)
      with True ff Cons.prems(1) have "s' = s1" by simp
      with k1 show ?thesis by simp
    next
      case (Inr u)
      with True ff Cons.prems(1) have "flushFrames fo ks s1 = (r, s')" by simp
      from Cons.IH [OF this] k1 Cons.prems(2) show ?thesis by simp
    qed
  qed
qed

lemma flushFile_keeps:
  assumes "0 < pinCnt (bufDescTable s ! i)"
  shows "keepsFrame i s (snd (flushFile s fo))"
proof -
  obtain r s' where fl: "flushFrames fo [0..<numBufs s] s = (r, s')"
    by (cases "flushFrames fo [0..<numBufs s] s")
  from flushFrames_keeps [OF fl assms] fl show ?thesis
    by (simp add: flushFile_def keepsFrame_def)
qed

lemma allocPage_keeps:
  assumes "wf_state s" "i < numBufs s" "0 < pinCnt (bufDescTable s ! i)"
  shows "keepsFrame i s (snd (allocPage s f fresh))"
proof -
  let ?s1 = "s\<lparr>files := (files s)(f := (files s f)(page_number fresh \<mapsto> fresh)),
        io := io s @ [IOAllocate f (page_number fresh)]\<rparr>"
  obtain r2 s2 where a: "allocBuf ?s1 = (r2, s2)" by (cases "allocBuf ?s1")
  from assms have "wf_state ?s1" "i < numBufs ?s1" "0 < pinCnt (bufDescTable ?s1 ! i)"
    by (simp_all add: wf_state_def)
  note k = allocBuf_keeps_pinned [OF a this]
  then have "keepsFrame i ?s1 s2" by (intro keepsFrame_upto) simp_all
  then have k2: "keepsFrame i s s2" by (simp add: keepsFrame_def)
  show ?thesis
  proof (cases r2)
    case (Inl e)
    with a k2 show ?thesis by (simp add: allocPage_def file_allocatePage_def)
  next
    case (Inr v)
    with k have ne: "v \<noteq> i" by auto
    have "keepsFrame i s2 (snd (allocPage s f fresh))"
      using a Inr ne
      by (auto simp: allocPage_def file_allocatePage_def file_readPage_def Let_def
          insertAndSet_def ht_insert_def keepsFrame_def split: option.splits)
    with k2 show ?thesis by (rule keepsFrame_trans)
  qed
qed

section \<open>The claims\<close>

subsection \<open>Victim selection\<close>

text \<open>
  C1. In \<^verbatim>\<open>allocBuf\<close>, in a state with the invariant (every state the sweep can be in
  when the manager is used through its public operations), when the clock hand reaches a
  valid frame whose reference bit is off and whose pin count is 0: the frame has an
  owning file and an index entry; a dirty frame's content is written back through the
  owning file; the entry is removed from the index; the descriptor is cleared to the
  invalid state; and the sweep ends there with that frame as the victim. A missing
  entry is no error either: in any state, a frame of this kind that has an owning file
  is selected without an exception, and the index holds no entry for its page afterwards.
\<close>

theorem sweep_victim:
  assumes "h = clockHand (advanceClock s)" "d = bufDescTable s ! h"
    "valid d" "\<not> refbit d" "pinCnt d = 0"
  shows "(wf_state s \<and> 0 < numBufs s \<longrightarrow>
      (\<exists>f s'. owningFile d = Some f \<and> hashTable s (f, pageNo d) = Some h \<and>
         sweep (Suc k) s = (Inr (Some h), s') \<and>
         clockHand s' = h \<and> bufPool s' = bufPool s \<and>
         files s' = (if dirty d
                     then (files s)(f := (files s f)(page_number (bufPool s ! h) \<mapsto> bufPool s ! h))
                     else files s) \<and>
         io s' = (if dirty d then io s @ [IOWrite f (bufPool s ! h)] else io s) \<and>
         hashTable s' = (hashTable s)((f, pageNo d) := None) \<and>
         bufDescTable s' = (bufDescTable s)[h := BufDesc_Clear d] \<and>
         \<not> valid (bufDescTable s' ! h) \<and> wf_state s')) \<and>
    (\<forall>f. owningFile d = Some f \<longrightarrow>
      (\<exists>s'. sweep (Suc k) s = (Inr (Some h), s') \<and> hashTable s' (f, pageNo d) = None))"
proof (intro conjI impI allI)
  assume a: "wf_state s \<and> 0 < numBufs s"
  then have w: "wfTab (bufDescTable s) (hashTable s)" and hN: "h < numBufs s"
    using assms(1) by (simp_all add: wf_state_def)
  from wfTab_valid [OF w hN] assms(2,3) obtain f
    where f: "owningFile d = Some f" "hashTable s (f, pageNo d) = Some h" by auto
  let ?s' = "(if dirty d then file_writePage f (bufPool s ! h) (advanceClock s) else advanceClock s)
      \<lparr>hashTable := (hashTable s)((f, pageNo d) := None),
       bufDescTable := (bufDescTable s)[h := BufDesc_Clear d]\<rparr>"
  from assms f have sw: "sweep (Suc k) s = (Inr (Some h), ?s')"
    by (simp add: Let_def evict_def writeBack_def removeAndClear_def ht_remove_def)
  from w hN f(1) assms(2)
  have "wfTab ((bufDescTable s)[h := BufDesc_Clear d]) ((hashTable s)((f, pageNo d) := None))"
    using wfTab_unmap [of "bufDescTable s" "hashTable s" h f d] by simp
  then have "wf_state ?s'" by (simp add: wf_state_def)
  moreover from hN have "\<not> valid (bufDescTable ?s' ! h)" by (simp add: BufDesc_Clear_def)
  moreover from assms(1) have "clockHand ?s' = h" by simp
  ultimately show "\<exists>f s'. owningFile d = Some f \<and> hashTable s (f, pageNo d) = Some h \<and>
         sweep (Suc k) s = (Inr (Some h), s') \<and>
         clockHand s' = h \<and> bufPool s' = bufPool s \<and>
         files s' = (if dirty d
                     then (files s)(f := (files s f)(page_number (bufPool s ! h) \<mapsto> bufPool s ! h))
                     else files s) \<and>
         io s' = (if dirty d then io s @ [IOWrite f (bufPool s ! h)] else io s) \<and>
         hashTable s' = (hashTable s)((f, pageNo d) := None) \<and>
         bufDescTable s' = (bufDescTable s)[h := BufDesc_Clear d] \<and>
         \<not> valid (bufDescTable s' ! h) \<and> wf_state s'"
    using f sw by (intro exI [of _ f] exI [of _ ?s']) simp
next
  fix f assume "owningFile d = Some f"
  with assms show "\<exists>s'. sweep (Suc k) s = (Inr (Some h), s') \<and> hashTable s' (f, pageNo d) = None"
    by (cases "hashTable s (f, pageNo d)")
       (auto simp: Let_def evict_def writeBack_def removeAndClear_def ht_remove_def)
qed

theorem sweep_victim_witness:
  "wf_state st_reached \<and> 0 < numBufs st_reached \<and>
   clockHand (advanceClock st_reached) = 0 \<and>
   valid (bufDescTable st_reached ! 0) \<and> \<not> refbit (bufDescTable st_reached ! 0) \<and>
   pinCnt (bufDescTable st_reached ! 0) = 0 \<and> dirty (bufDescTable st_reached ! 0) \<and>
   hashTable st_reached (1, 1) = Some 0 \<and>
   fst (sweep 1 st_reached) = Inr (Some 0) \<and>
   io (snd (sweep 1 st_reached)) =
     io st_reached @ [IOWrite 1 \<lparr>page_number = 1, pdata = ''one''\<rparr>] \<and>
   hashTable (snd (sweep 1 st_reached)) (1, 1) = None \<and>
   \<not> valid (bufDescTable (snd (sweep 1 st_reached)) ! 0) \<and>
   owningFile (bufDescTable (snd (sweep 1 st_reached)) ! 0) = None"
proof -
  have w: "wf_state st_reached"
    unfolding st_reached_def by (intro run_wf BufMgr_new_wf)
  have e: "bufDescTable st_reached =
      [\<lparr>owningFile = Some 1, pageNo = 1, frameNo = 0, pinCnt = 0, dirty = True, valid = True,
        refbit = False\<rparr>]"
    "bufPool st_reached = [\<lparr>page_number = 1, pdata = ''one''\<rparr>]"
    "hashTable st_reached (1, 1) = Some 0" "clockHand st_reached = 0"
    by (simp_all add: st_reached_def bufmgr_exec)
  from e have h: "0 = clockHand (advanceClock st_reached)" by simp
  from e have d: "valid (bufDescTable st_reached ! 0)" "\<not> refbit (bufDescTable st_reached ! 0)"
    "pinCnt (bufDescTable st_reached ! 0) = 0" "dirty (bufDescTable st_reached ! 0)"
    "0 < numBufs st_reached"
    by simp_all
  from sweep_victim [OF h refl d(1,2,3), of 0] w d(5) obtain f s'
    where r: "owningFile (bufDescTable st_reached ! 0) = Some f"
      "sweep (Suc 0) st_reached = (Inr (Some 0), s')"
      "io s' = (if dirty (bufDescTable st_reached ! 0)
                then io st_reached @ [IOWrite f (bufPool st_reached ! 0)] else io st_reached)"
      "hashTable s' = (hashTable st_reached)((f, pageNo (bufDescTable st_reached ! 0)) := None)"
      "bufDescTable s' = (bufDescTable st_reached)[0 := BufDesc_Clear (bufDescTable st_reached ! 0)]"
      "\<not> valid (bufDescTable s' ! 0)"
    by blast
  from r(1) e have f: "f = 1" by simp
  from r(2) have 1: "fst (sweep 1 st_reached) = Inr (Some 0)" "snd (sweep 1 st_reached) = s'"
    by simp_all
  from r(3) d(4) f e have 2: "io s' = io st_reached @ [IOWrite 1 \<lparr>page_number = 1, pdata = ''one''\<rparr>]"
    by simp
  from r(4) f e have 3: "hashTable s' (1, 1) = None" by simp
  from r(5) e have 4: "owningFile (bufDescTable s' ! 0) = None" by (simp add: BufDesc_Clear_def)
  from w d e(3) h 1 2 3 4 r(6) show ?thesis by simp
qed

text \<open>
  C2, as amended. In a pool (with the clock hand inside it) where every frame is valid
  and pinned, \<^verbatim>\<open>allocBuf\<close> fails with the capacity-exceeded condition after one full
  sweep; that sweep has switched every reference bit off and has changed nothing else:
  the hand is back where it was, and the other descriptor fields, the pool, the index
  and the files are as before. And whenever some frame has pin count 0 (every dirty
  frame having an owning file), \<^verbatim>\<open>allocBuf\<close> returns a frame of the pool.
\<close>

theorem allocBuf_capacity:
  "(allPinnedValid s \<and> clockHand s < numBufs s \<longrightarrow>
      sweep (numBufs s) s =
        (Inr None, s\<lparr>bufDescTable := map (\<lambda>d. d\<lparr>refbit := False\<rparr>) (bufDescTable s)\<rparr>) \<and>
      allocBuf s =
        (Inl BufferExceeded, s\<lparr>bufDescTable := map (\<lambda>d. d\<lparr>refbit := False\<rparr>) (bufDescTable s)\<rparr>)) \<and>
   (someUnpinned s \<and> dirtyOwned s \<longrightarrow>
      (\<exists>fr s'. allocBuf s = (Inr fr, s') \<and> fr < numBufs s))"
proof (intro conjI impI)
  assume a: "allPinnedValid s \<and> clockHand s < numBufs s"
  let ?s' = "s\<lparr>bufDescTable := map (\<lambda>d. d\<lparr>refbit := False\<rparr>) (bufDescTable s)\<rparr>"
  from a show sw: "sweep (numBufs s) s = (Inr None, ?s')"
    by (simp add: sweep_full_allPinned_result)
  from a have "\<not> someUnpinned s" by (auto simp: someUnpinned_def allPinnedValid_def list_all_iff list_ex_iff)
  with sweep_None_someUnpinned [OF sw] have "\<not> someUnpinned ?s'" by simp
  with sw show "allocBuf s = (Inl BufferExceeded, ?s')" by (simp add: allocBuf.simps)
next
  assume "someUnpinned s \<and> dirtyOwned s"
  then show "\<exists>fr s'. allocBuf s = (Inr fr, s') \<and> fr < numBufs s"
    by (intro allocBuf_some_unpinned) simp_all
qed

theorem allocBuf_capacity_witness:
  "allPinnedValid st_pinned \<and> clockHand st_pinned < numBufs st_pinned \<and>
   fst (allocBuf st_pinned) = Inl BufferExceeded \<and>
   \<not> refbit (bufDescTable (snd (allocBuf st_pinned)) ! 0) \<and>
   someUnpinned st_dirty \<and> dirtyOwned st_dirty \<and>
   (\<exists>fr s'. allocBuf st_dirty = (Inr fr, s') \<and> fr < numBufs st_dirty)"
proof -
  have a: "allPinnedValid st_pinned \<and> clockHand st_pinned < numBufs st_pinned"
    by (simp add: st_pinned_def allPinnedValid_def)
  have b: "someUnpinned st_dirty \<and> dirtyOwned st_dirty"
    by (simp add: st_dirty_def someUnpinned_def dirtyOwned_def)
  from allocBuf_capacity [of st_pinned] a
  have "allocBuf st_pinned = (Inl BufferExceeded,
      st_pinned\<lparr>bufDescTable := map (\<lambda>d. d\<lparr>refbit := False\<rparr>) (bufDescTable st_pinned)\<rparr>)"
    by blast
  then have "fst (allocBuf st_pinned) = Inl BufferExceeded"
    "\<not> refbit (bufDescTable (snd (allocBuf st_pinned)) ! 0)"
    by (simp_all add: st_pinned_def)
  moreover from allocBuf_capacity [of st_dirty] b
  have "\<exists>fr s'. allocBuf st_dirty = (Inr fr, s') \<and> fr < numBufs st_dirty" by blast
  ultimately show ?thesis using a b by blast
qed

text \<open>
  The claim as it stands says the failing call changes no state; a pinned frame whose
  reference bit was on has lost it.
\<close>

theorem allocBuf_all_pinned_changes_state:
  "allPinnedValid st_pinned \<and> fst (allocBuf st_pinned) = Inl BufferExceeded \<and>
   refbit (bufDescTable st_pinned ! 0) \<and>
   \<not> refbit (bufDescTable (snd (allocBuf st_pinned)) ! 0) \<and>
   snd (allocBuf st_pinned) \<noteq> st_pinned"
  by (simp add: allocBuf.simps st_pinned_def allPinnedValid_def advanceClock_def clearRef_def
      someUnpinned_def)

subsection \<open>Fetch\<close>

text \<open>
  C3. A \<^verbatim>\<open>readPage\<close> of a resident page (the index lookup hits) adds one to the pin
  count of the mapped frame, sets its reference bit, issues no file read (the log and the
  files are as before) and returns that very frame. In particular, when a fetch of
  (file, page) has returned a frame, fetching the same page again without unpinning
  returns the same frame and adds one more pin, so that a page that was not resident or
  not pinned before the first fetch ends with pin count 2.
\<close>

theorem readPage_resident:
  "(hashTable s (f, p) = Some fr \<and> fr < numBufs s \<longrightarrow>
      readPage s f p =
        (Inr fr,
         s\<lparr>bufDescTable := (bufDescTable s)
              [fr := (bufDescTable s ! fr)
                 \<lparr>pinCnt := pinCnt (bufDescTable s ! fr) + 1, refbit := True\<rparr>]\<rparr>)) \<and>
   (readPage s f p = (Inr fr, s1) \<longrightarrow>
      (\<exists>s2. readPage s1 f p = (Inr fr, s2) \<and> io s2 = io s1 \<and> files s2 = files s1 \<and>
         bufPool s2 = bufPool s1 \<and>
         pinCnt (bufDescTable s2 ! fr) = pinCnt (bufDescTable s1 ! fr) + 1 \<and>
         ((case hashTable s (f, p) of None \<Rightarrow> True | Some fr0 \<Rightarrow> pinCnt (bufDescTable s ! fr0) = 0)
            \<longrightarrow> pinCnt (bufDescTable s2 ! fr) = 2)))"
proof (intro conjI impI)
  assume "hashTable s (f, p) = Some fr \<and> fr < numBufs s"
  then show "readPage s f p =
        (Inr fr,
         s\<lparr>bufDescTable := (bufDescTable s)
              [fr := (bufDescTable s ! fr)
                 \<lparr>pinCnt := pinCnt (bufDescTable s ! fr) + 1, refbit := True\<rparr>]\<rparr>)"
    by (simp add: readPage_hit)
next
  assume r: "readPage s f p = (Inr fr, s1)"
  note one = readPage_Inr [OF r]
  from one have h: "hashTable s1 (f, p) = Some fr" "fr < numBufs s1" by simp_all
  let ?s2 = "s1\<lparr>bufDescTable := (bufDescTable s1)
              [fr := (bufDescTable s1 ! fr)
                 \<lparr>pinCnt := pinCnt (bufDescTable s1 ! fr) + 1, refbit := True\<rparr>]\<rparr>"
  have two: "readPage s1 f p = (Inr fr, ?s2)" using h by (rule readPage_hit)
  have "pinCnt (bufDescTable ?s2 ! fr) = pinCnt (bufDescTable s1 ! fr) + 1" using h(2) by simp
  moreover from this one
  have "(case hashTable s (f, p) of None \<Rightarrow> True | Some fr0 \<Rightarrow> pinCnt (bufDescTable s ! fr0) = 0)
            \<longrightarrow> pinCnt (bufDescTable ?s2 ! fr) = 2"
    by (cases "hashTable s (f, p)") simp_all
  ultimately show "\<exists>s2. readPage s1 f p = (Inr fr, s2) \<and> io s2 = io s1 \<and> files s2 = files s1 \<and>
         bufPool s2 = bufPool s1 \<and>
         pinCnt (bufDescTable s2 ! fr) = pinCnt (bufDescTable s1 ! fr) + 1 \<and>
         ((case hashTable s (f, p) of None \<Rightarrow> True | Some fr0 \<Rightarrow> pinCnt (bufDescTable s ! fr0) = 0)
            \<longrightarrow> pinCnt (bufDescTable s2 ! fr) = 2)"
    using two h(2) by (intro exI [of _ ?s2]) simp
qed

theorem readPage_resident_witness:
  "hashTable st_pinned (1, 1) = Some 0 \<and> 0 < numBufs st_pinned \<and>
   fst (readPage st_pinned 1 1) = Inr 0 \<and>
   pinCnt (bufDescTable (snd (readPage st_pinned 1 1)) ! 0) = 2 \<and>
   refbit (bufDescTable (snd (readPage st_pinned 1 1)) ! 0) \<and>
   io (snd (readPage st_pinned 1 1)) = io st_pinned \<and>
   fst (readPage st_dirty 1 1) = Inr 0 \<and>
   fst (readPage (snd (readPage st_dirty 1 1)) 1 1) = Inr 0 \<and>
   pinCnt (bufDescTable (snd (readPage (snd (readPage st_dirty 1 1)) 1 1)) ! 0) = 2"
proof -
  have a: "hashTable st_pinned (1, 1) = Some 0 \<and> 0 < numBufs st_pinned"
    by (simp add: st_pinned_def)
  with readPage_resident [of st_pinned 1 1 0]
  have "readPage st_pinned 1 1 =
        (Inr 0,
         st_pinned\<lparr>bufDescTable := (bufDescTable st_pinned)
              [0 := (bufDescTable st_pinned ! 0)
                 \<lparr>pinCnt := pinCnt (bufDescTable st_pinned ! 0) + 1, refbit := True\<rparr>]\<rparr>)"
    by blast
  then have b: "fst (readPage st_pinned 1 1) = Inr 0"
    "pinCnt (bufDescTable (snd (readPage st_pinned 1 1)) ! 0) = 2"
    "refbit (bufDescTable (snd (readPage st_pinned 1 1)) ! 0)"
    "io (snd (readPage st_pinned 1 1)) = io st_pinned"
    by (simp_all add: st_pinned_def)
  have c: "hashTable st_dirty (1, 1) = Some 0 \<and> 0 < numBufs st_dirty"
    "pinCnt (bufDescTable st_dirty ! 0) = 0"
    by (simp_all add: st_dirty_def)
  obtain s1 where s1: "readPage st_dirty 1 1 = (Inr 0, s1)"
    using readPage_resident [of st_dirty 1 1 0] c(1) by blast
  with readPage_resident [of st_dirty 1 1 0 s1] c
  obtain s2 where "readPage s1 1 1 = (Inr 0, s2)" "pinCnt (bufDescTable s2 ! 0) = 2"
    by auto
  with s1 have "fst (readPage st_dirty 1 1) = Inr 0"
    "fst (readPage (snd (readPage st_dirty 1 1)) 1 1) = Inr 0"
    "pinCnt (bufDescTable (snd (readPage (snd (readPage st_dirty 1 1)) 1 1)) ! 0) = 2"
    by simp_all
  with a b show ?thesis by blast
qed

text \<open>
  C4. The claim, like the comment above \<^verbatim>\<open>readPage\<close> (lines 134 to 137) and like
  \<^verbatim>\<open>allocPage\<close> (lines 241 to 243), obtains the victim frame first and reads the page
  into it afterwards. The code does it the other way round (lines 153 and 154). Evaluated
  at a reachable state whose only frame holds page 1, dirty and unpinned: a fetch of
  page 2 reads the file before the victim's write-back, where the claim's order writes
  back first; and a fetch of page 3, which the file does not have, fails and leaves
  page 1 resident, where the claim's order has evicted it before the read fails.
\<close>

theorem readPage_reads_before_victim:
  "hashTable st_reached (1, 2) = None \<and>
   fst (readPage st_reached 1 2) = Inr 0 \<and>
   fst (readPage_spec st_reached 1 2) = Inr 0 \<and>
   io (snd (readPage st_reached 1 2)) =
     io st_reached @ [IORead 1 2, IOWrite 1 \<lparr>page_number = 1, pdata = ''one''\<rparr>] \<and>
   io (snd (readPage_spec st_reached 1 2)) =
     io st_reached @ [IOWrite 1 \<lparr>page_number = 1, pdata = ''one''\<rparr>, IORead 1 2] \<and>
   readPage st_reached 1 2 \<noteq> readPage_spec st_reached 1 2 \<and>
   hashTable st_reached (1, 3) = None \<and>
   fst (readPage st_reached 1 3) = Inl (InvalidPage 1 3) \<and>
   valid (bufDescTable (snd (readPage st_reached 1 3)) ! 0) \<and>
   hashTable (snd (readPage st_reached 1 3)) (1, 1) = Some 0 \<and>
   fst (readPage_spec st_reached 1 3) = Inl (InvalidPage 1 3) \<and>
   \<not> valid (bufDescTable (snd (readPage_spec st_reached 1 3)) ! 0) \<and>
   hashTable (snd (readPage_spec st_reached 1 3)) (1, 1) = None"
  by (simp add: st_reached_def readPage_spec_def bufmgr_exec)

text \<open>
  C10. When \<^verbatim>\<open>readPage\<close> is asked for a page that is not resident and the file's page
  read fails because the page does not exist, the failure is passed on and the manager
  is as it was: no victim has been selected, no frame evicted or cleared, the clock hand
  has not moved and the index is untouched. Only the log of file calls has grown by the
  failed read.
\<close>

theorem readPage_read_fails:
  "hashTable s (f, p) = None \<Longrightarrow> files s f p = None \<Longrightarrow>
     readPage s f p = (Inl (InvalidPage f p), s\<lparr>io := io s @ [IORead f p]\<rparr>)"
  by (simp add: readPage_def ht_lookup_def file_readPage_def)

theorem readPage_read_fails_witness:
  "hashTable st_pinned (1, 3) = None \<and> files st_pinned 1 3 = None \<and>
   fst (readPage st_pinned 1 3) = Inl (InvalidPage 1 3) \<and>
   bufDescTable (snd (readPage st_pinned 1 3)) = bufDescTable st_pinned \<and>
   bufPool (snd (readPage st_pinned 1 3)) = bufPool st_pinned \<and>
   hashTable (snd (readPage st_pinned 1 3)) = hashTable st_pinned \<and>
   clockHand (snd (readPage st_pinned 1 3)) = clockHand st_pinned \<and>
   files (snd (readPage st_pinned 1 3)) = files st_pinned"
proof -
  have h: "hashTable st_pinned (1, 3) = None" "files st_pinned 1 3 = None"
    by (simp_all add: st_pinned_def demo_files_def)
  from readPage_read_fails [OF h] h show ?thesis by simp
qed

subsection \<open>Unpin\<close>

text \<open>
  C5. \<^verbatim>\<open>unPinPage\<close> with a file, a page id and a dirty flag: when the index lookup
  misses, the call succeeds and changes nothing; when it hits a frame with pin count 0,
  the call fails with the not-pinned condition naming file, page id and frame, and the
  state is unchanged; otherwise the pin count goes down by one and the dirty bit becomes
  true if the flag is true and keeps its value if not, so it is never cleared here.
\<close>

theorem unPinPage_spec:
  "(hashTable s (f, p) = None \<longrightarrow> unPinPage s f p b = (Inr (), s)) \<and>
   (\<forall>fr. hashTable s (f, p) = Some fr \<and> fr < numBufs s \<and> pinCnt (bufDescTable s ! fr) = 0 \<longrightarrow>
      unPinPage s f p b = (Inl (PageNotPinned f p fr), s)) \<and>
   (\<forall>fr. hashTable s (f, p) = Some fr \<and> fr < numBufs s \<and> 0 < pinCnt (bufDescTable s ! fr) \<longrightarrow>
      unPinPage s f p b =
        (Inr (),
         s\<lparr>bufDescTable := (bufDescTable s)
              [fr := (bufDescTable s ! fr)
                 \<lparr>pinCnt := pinCnt (bufDescTable s ! fr) - 1,
                  dirty := b \<or> dirty (bufDescTable s ! fr)\<rparr>]\<rparr>))"
  by (cases b) (simp_all add: unPinPage_def ht_lookup_def Let_def)

theorem unPinPage_spec_witness:
  "hashTable st_pinned (1, 1) = Some 0 \<and> 0 < numBufs st_pinned \<and>
   0 < pinCnt (bufDescTable st_pinned ! 0) \<and>
   fst (unPinPage st_pinned 1 1 False) = Inr () \<and>
   pinCnt (bufDescTable (snd (unPinPage st_pinned 1 1 False)) ! 0) = 0 \<and>
   dirty (bufDescTable (snd (unPinPage st_pinned 1 1 False)) ! 0) \<and>
   unPinPage st_pinned 1 2 True = (Inr (), st_pinned)"
  using unPinPage_spec [of st_pinned 1 1 False] unPinPage_spec [of st_pinned 1 2 True]
  by (simp add: st_pinned_def)

subsection \<open>Flush\<close>

text \<open>
  C6. \<^verbatim>\<open>flushFile\<close>, given a file, goes through the frames in ascending frame id. Let
  frame \<open>k\<close> be the
  first frame of the file that is pinned, the frames of the file before it being valid,
  unpinned and in the index. Then the call fails with the page-pinned condition naming
  the file, the page of frame \<open>k\<close> and \<open>k\<close>, and the scan stops there: every frame from
  \<open>k\<close> on is untouched. Every frame of the file before \<open>k\<close> stays flushed although the
  call failed: its descriptor is cleared, its index entry removed, and the buffered
  pages of the dirty ones have been written to the file, in frame order.
\<close>

theorem flushFile_stops_at_pinned:
  assumes "k < numBufs s" "owningFile (bufDescTable s ! k) = Some f"
    "0 < pinCnt (bufDescTable s ! k)"
    "\<forall>j < k. owningFile (bufDescTable s ! j) = Some f \<longrightarrow>
       pinCnt (bufDescTable s ! j) = 0 \<and> valid (bufDescTable s ! j) \<and>
       hashTable s (f, pageNo (bufDescTable s ! j)) = Some j"
  shows "\<exists>s'. flushFile s (Some f) = (Inl (PagePinned f (pageNo (bufDescTable s ! k)) k), s') \<and>
    (\<forall>j < numBufs s. bufDescTable s' ! j =
       (if j < k \<and> owningFile (bufDescTable s ! j) = Some f
        then BufDesc_Clear (bufDescTable s ! j) else bufDescTable s ! j)) \<and>
    (\<forall>key. hashTable s' key =
       (if \<exists>j < k. owningFile (bufDescTable s ! j) = Some f \<and>
             key = (f, pageNo (bufDescTable s ! j))
        then None else hashTable s key)) \<and>
    io s' = io s @ map (IOWrite f) (dirtyPages f s [0..<k]) \<and>
    files s' = foldl (persist f) (files s) (dirtyPages f s [0..<k]) \<and>
    bufPool s' = bufPool s \<and> clockHand s' = clockHand s"
proof -
  have d: "distinct [0..<k]" by simp
  from assms(1) have b: "\<forall>j \<in> set [0..<k]. j < numBufs s" by simp
  from assms(4) have h: "\<forall>j \<in> set [0..<k]. owningFile (bufDescTable s ! j) = Some f \<longrightarrow>
       pinCnt (bufDescTable s ! j) = 0 \<and> valid (bufDescTable s ! j) \<and>
       hashTable s (f, pageNo (bufDescTable s ! j)) = Some j" by simp
  from flushFrames_prefix [OF d b h] obtain s' where
    s': "flushFrames (Some f) [0..<k] s = (Inr (), s')" "numBufs s' = numBufs s"
      "\<forall>j < numBufs s. bufDescTable s' ! j =
         (if j \<in> set [0..<k] \<and> owningFile (bufDescTable s ! j) = Some f
          then BufDesc_Clear (bufDescTable s ! j) else bufDescTable s ! j)"
      "\<forall>key. hashTable s' key =
         (if \<exists>j \<in> set [0..<k]. owningFile (bufDescTable s ! j) = Some f \<and>
               key = (f, pageNo (bufDescTable s ! j))
          then None else hashTable s key)"
      "io s' = io s @ map (IOWrite f) (dirtyPages f s [0..<k])"
      "files s' = foldl (persist f) (files s) (dirtyPages f s [0..<k])"
      "bufPool s' = bufPool s" "clockHand s' = clockHand s"
    by blast
  from s'(3) assms(1) have k: "bufDescTable s' ! k = bufDescTable s ! k" by simp
  from assms(1) have "[0..<numBufs s] = [0..<k] @ [k..<numBufs s]"
    using upt_add_eq_append [of 0 k "numBufs s - k"] by simp
  also from assms(1) have "[k..<numBufs s] = k # [Suc k..<numBufs s]" by (rule upt_conv_Cons)
  finally have "[0..<numBufs s] = [0..<k] @ k # [Suc k..<numBufs s]" .
  then have "flushFile s (Some f) = flushFrames (Some f) (k # [Suc k..<numBufs s]) s'"
    by (simp add: flushFile_def flushFrames_append s'(1))
  also from k assms(2,3) have "\<dots> = (Inl (PagePinned f (pageNo (bufDescTable s ! k)) k), s')"
    by (simp add: flushFrame_def)
  finally have 1: "flushFile s (Some f) = (Inl (PagePinned f (pageNo (bufDescTable s ! k)) k), s')" .
  from s'(3) have 3: "\<forall>j < numBufs s. bufDescTable s' ! j =
       (if j < k \<and> owningFile (bufDescTable s ! j) = Some f
        then BufDesc_Clear (bufDescTable s ! j) else bufDescTable s ! j)" by simp
  have 4: "\<forall>key. hashTable s' key =
       (if \<exists>j < k. owningFile (bufDescTable s ! j) = Some f \<and>
             key = (f, pageNo (bufDescTable s ! j))
        then None else hashTable s key)"
  proof
    fix key
    from s'(4) have "hashTable s' key =
         (if \<exists>j \<in> set [0..<k]. owningFile (bufDescTable s ! j) = Some f \<and>
               key = (f, pageNo (bufDescTable s ! j))
          then None else hashTable s key)" by (rule spec)
    moreover have "(\<exists>j \<in> set [0..<k]. owningFile (bufDescTable s ! j) = Some f \<and>
               key = (f, pageNo (bufDescTable s ! j))) =
        (\<exists>j < k. owningFile (bufDescTable s ! j) = Some f \<and>
             key = (f, pageNo (bufDescTable s ! j)))" by auto
    ultimately show "hashTable s' key =
       (if \<exists>j < k. owningFile (bufDescTable s ! j) = Some f \<and>
             key = (f, pageNo (bufDescTable s ! j))
        then None else hashTable s key)" by (simp only:)
  qed
  from 1 3 4 s'(5,6,7,8) show ?thesis by blast
qed

theorem flushFile_stops_at_pinned_witness:
  "1 < numBufs st_three \<and> owningFile (bufDescTable st_three ! 1) = Some 1 \<and>
   0 < pinCnt (bufDescTable st_three ! 1) \<and>
   owningFile (bufDescTable st_three ! 0) = Some 1 \<and> pinCnt (bufDescTable st_three ! 0) = 0 \<and>
   valid (bufDescTable st_three ! 0) \<and> hashTable st_three (1, 1) = Some 0 \<and>
   fst (flushFile st_three (Some 1)) = Inl (PagePinned 1 2 1) \<and>
   \<not> valid (bufDescTable (snd (flushFile st_three (Some 1))) ! 0) \<and>
   hashTable (snd (flushFile st_three (Some 1))) (1, 1) = None \<and>
   io (snd (flushFile st_three (Some 1))) = [IOWrite 1 \<lparr>page_number = 1, pdata = ''ONE''\<rparr>] \<and>
   dirty (bufDescTable (snd (flushFile st_three (Some 1))) ! 2) \<and>
   hashTable (snd (flushFile st_three (Some 1))) (1, 3) = Some 2"
proof -
  have a: "1 < numBufs st_three" "owningFile (bufDescTable st_three ! 1) = Some 1"
    "0 < pinCnt (bufDescTable st_three ! 1)"
    by (simp_all add: st_three_def)
  have b: "owningFile (bufDescTable st_three ! 0) = Some 1" "pinCnt (bufDescTable st_three ! 0) = 0"
    "valid (bufDescTable st_three ! 0)" "hashTable st_three (1, 1) = Some 0"
    by (simp_all add: st_three_def)
  then have c: "\<forall>j < 1. owningFile (bufDescTable st_three ! j) = Some 1 \<longrightarrow>
       pinCnt (bufDescTable st_three ! j) = 0 \<and> valid (bufDescTable st_three ! j) \<and>
       hashTable st_three (1, pageNo (bufDescTable st_three ! j)) = Some j"
    by (simp add: st_three_def)
  from flushFile_stops_at_pinned [OF a c] obtain s' where
    s': "flushFile st_three (Some 1) = (Inl (PagePinned 1 (pageNo (bufDescTable st_three ! 1)) 1), s')"
      "\<forall>j < numBufs st_three. bufDescTable s' ! j =
         (if j < 1 \<and> owningFile (bufDescTable st_three ! j) = Some 1
          then BufDesc_Clear (bufDescTable st_three ! j) else bufDescTable st_three ! j)"
      "\<forall>key. hashTable s' key =
       (if \<exists>j < 1. owningFile (bufDescTable st_three ! j) = Some 1 \<and>
             key = (1, pageNo (bufDescTable st_three ! j))
        then None else hashTable st_three key)"
      "io s' = io st_three @ map (IOWrite 1) (dirtyPages 1 st_three [0..<1])"
    by blast
  from s'(1) have 1: "fst (flushFile st_three (Some 1)) = Inl (PagePinned 1 2 1)"
    and sn: "snd (flushFile st_three (Some 1)) = s'"
    by (simp_all add: st_three_def)
  from s'(2) have "bufDescTable s' ! 0 = BufDesc_Clear (bufDescTable st_three ! 0)"
    "bufDescTable s' ! 2 = bufDescTable st_three ! 2"
    by (simp_all add: st_three_def)
  then have 2: "\<not> valid (bufDescTable s' ! 0)" "dirty (bufDescTable s' ! 2)"
    by (simp_all add: st_three_def BufDesc_Clear_def)
  from s'(3) [THEN spec, of "(1, 1)"] s'(3) [THEN spec, of "(1, 3)"]
  have 3: "hashTable s' (1, 1) = None" "hashTable s' (1, 3) = Some 2"
    by (simp_all add: st_three_def)
  from s'(4) have 4: "io s' = [IOWrite 1 \<lparr>page_number = 1, pdata = ''ONE''\<rparr>]"
    by (simp add: st_three_def dirtyPages_def)
  from a b 1 2 3 4 show ?thesis unfolding sn by blast
qed




subsection \<open>Invariants\<close>

text \<open>
  C7. Every frame with \<open>valid = false\<close> has pin count 0, is not dirty and has no owning
  file: this holds in the state the constructor produces, in every state reached from it
  by public operations, and hence after each of \<^verbatim>\<open>readPage\<close>, \<^verbatim>\<open>unPinPage\<close>,
  \<^verbatim>\<open>allocPage\<close>, \<^verbatim>\<open>disposePage\<close> and \<^verbatim>\<open>flushFile\<close> (with a file or with the null
  pointer) run in such a state.
\<close>

theorem invalid_frames_clean:
  "invalidClean (BufMgr_new n fs) \<and>
   invalidClean (run rqs (BufMgr_new n fs)) \<and>
   invalidClean (snd (readPage (run rqs (BufMgr_new n fs)) f p)) \<and>
   invalidClean (snd (unPinPage (run rqs (BufMgr_new n fs)) f p b)) \<and>
   invalidClean (snd (allocPage (run rqs (BufMgr_new n fs)) f fresh)) \<and>
   invalidClean (snd (disposePage (run rqs (BufMgr_new n fs)) f p)) \<and>
   invalidClean (snd (flushFile (run rqs (BufMgr_new n fs)) fo))"
proof -
  have "wf_state (BufMgr_new n fs)" by (rule BufMgr_new_wf)
  moreover from this have "wf_state (run rqs (BufMgr_new n fs))" by (rule run_wf)
  ultimately show ?thesis
    by (intro conjI wf_invalidClean readPage_wf unPinPage_wf allocPage_wf disposePage_wf
        flushFile_wf)
qed

theorem invalid_frames_clean_witness:
  "invalidClean (BufMgr_new 1 demo_files) \<and>
   invalidClean (run [Fetch 1 1, Unpin 1 1 True, Dispose 1 1] (BufMgr_new 1 demo_files)) \<and>
   invalidClean (snd (flushFile (run [Fetch 1 1, Unpin 1 1 True, Dispose 1 1]
     (BufMgr_new 1 demo_files)) (Some 1))) \<and>
   bufDescTable (run [Fetch 1 1, Unpin 1 1 True, Dispose 1 1] (BufMgr_new 1 demo_files)) =
     [\<lparr>owningFile = None, pageNo = 0, frameNo = 0, pinCnt = 0, dirty = False, valid = False,
       refbit = False\<rparr>]"
  using invalid_frames_clean [of 1 demo_files "[Fetch 1 1, Unpin 1 1 True, Dispose 1 1]" 1 1 True
      "\<lparr>page_number = 3, pdata = ''new''\<rparr>" "Some 1"]
  by (simp add: bufmgr_exec)

subsection \<open>Pins\<close>

text \<open>
  C8, as amended. Take a state reached from a freshly constructed manager by public
  operations and a frame of it with pin count above 0. Victim selection does not select
  that frame, and no public operation other than a \<^verbatim>\<open>disposePage\<close> of the frame's own
  page evicts the frame or reuses it: its owning file, its page id, its validity and its
  buffered content are the same afterwards (also after an unpin of its page and after a
  flush of its file, which fails at the pinned frame).
\<close>

theorem pinned_frame_kept:
  assumes "s = run rqs (BufMgr_new n fs)" "i < numBufs s" "0 < pinCnt (bufDescTable s ! i)"
  shows "(\<forall>v s'. allocBuf s = (Inr v, s') \<longrightarrow> v \<noteq> i) \<and>
    (\<forall>rq. (\<forall>f. owningFile (bufDescTable s ! i) = Some f \<longrightarrow>
              rq \<noteq> Dispose f (pageNo (bufDescTable s ! i))) \<longrightarrow>
          keepsFrame i s (perform rq s))"
proof (intro conjI allI impI)
  from assms(1) have w: "wf_state s" by (simp add: run_wf BufMgr_new_wf)
  {
    fix v s' assume "allocBuf s = (Inr v, s')"
    from allocBuf_keeps_pinned [OF this w assms(2,3)] show "v \<noteq> i" by auto
  next
    fix rq
    assume d: "\<forall>f. owningFile (bufDescTable s ! i) = Some f \<longrightarrow>
              rq \<noteq> Dispose f (pageNo (bufDescTable s ! i))"
    show "keepsFrame i s (perform rq s)"
    proof (cases rq)
      case (Fetch f p)
      with readPage_keeps [OF w assms(2,3)] show ?thesis by (simp add: perform_def)
    next
      case (Unpin f p b)
      with unPinPage_keeps show ?thesis by (simp add: perform_def)
    next
      case (Allocate f fresh)
      with allocPage_keeps [OF w assms(2,3)] show ?thesis by (simp add: perform_def)
    next
      case (Dispose f p)
      with d have "owningFile (bufDescTable s ! i) \<noteq> Some f \<or> pageNo (bufDescTable s ! i) \<noteq> p"
        by auto
      from disposePage_keeps [OF w assms(2) this] Dispose show ?thesis by (simp add: perform_def)
    next
      case (Flush fo)
      with flushFile_keeps [OF assms(3)] show ?thesis by (simp add: perform_def)
    qed
  }
qed

theorem pinned_frame_kept_witness:
  "0 < numBufs st_one_pinned \<and> 0 < pinCnt (bufDescTable st_one_pinned ! 0) \<and>
   owningFile (bufDescTable st_one_pinned ! 0) = Some 1 \<and>
   pageNo (bufDescTable st_one_pinned ! 0) = 1 \<and>
   keepsFrame 0 st_one_pinned (perform (Fetch 1 2) st_one_pinned) \<and>
   keepsFrame 0 st_one_pinned (perform (Flush (Some 1)) st_one_pinned) \<and>
   keepsFrame 0 st_one_pinned (perform (Dispose 1 2) st_one_pinned) \<and>
   fst (allocBuf st_one_pinned) = Inr 1 \<and>
   bufPool (perform (Fetch 1 2) st_one_pinned) ! 0 = \<lparr>page_number = 1, pdata = ''one''\<rparr>"
proof -
  have a: "st_one_pinned = run [Fetch 1 1] (BufMgr_new 2 demo_files)"
    by (simp add: st_one_pinned_def)
  have b: "0 < numBufs st_one_pinned" "0 < pinCnt (bufDescTable st_one_pinned ! 0)"
    "owningFile (bufDescTable st_one_pinned ! 0) = Some 1"
    "pageNo (bufDescTable st_one_pinned ! 0) = 1"
    by (simp_all add: st_one_pinned_def bufmgr_exec numeral_2_eq_2)
  from pinned_frame_kept [OF a b(1,2)] b(3,4)
  have "keepsFrame 0 st_one_pinned (perform (Fetch 1 2) st_one_pinned)"
    "keepsFrame 0 st_one_pinned (perform (Flush (Some 1)) st_one_pinned)"
    "keepsFrame 0 st_one_pinned (perform (Dispose 1 2) st_one_pinned)"
    by simp_all
  moreover have "fst (allocBuf st_one_pinned) = Inr 1"
    "bufPool (perform (Fetch 1 2) st_one_pinned) ! 0 = \<lparr>page_number = 1, pdata = ''one''\<rparr>"
    by (simp_all add: st_one_pinned_def bufmgr_exec numeral_2_eq_2)
  ultimately show ?thesis using b by blast
qed

text \<open>
  The claim as it stands extends the guarantee to dispose. \<^verbatim>\<open>disposePage\<close> does not look
  at the pin count: disposing a pinned page clears its frame and removes its index entry.
\<close>

theorem dispose_discards_pinned_frame:
  "0 < pinCnt (bufDescTable st_one_pinned ! 0) \<and>
   valid (bufDescTable st_one_pinned ! 0) \<and>
   owningFile (bufDescTable st_one_pinned ! 0) = Some 1 \<and>
   pageNo (bufDescTable st_one_pinned ! 0) = 1 \<and>
   fst (disposePage st_one_pinned 1 1) = Inr () \<and>
   \<not> valid (bufDescTable (snd (disposePage st_one_pinned 1 1)) ! 0) \<and>
   owningFile (bufDescTable (snd (disposePage st_one_pinned 1 1)) ! 0) = None \<and>
   pinCnt (bufDescTable (snd (disposePage st_one_pinned 1 1)) ! 0) = 0 \<and>
   hashTable (snd (disposePage st_one_pinned 1 1)) (1, 1) = None \<and>
   \<not> keepsFrame 0 st_one_pinned (perform (Dispose 1 1) st_one_pinned)"
  by (simp add: st_one_pinned_def keepsFrame_def bufmgr_exec numeral_2_eq_2)

end
